theory Spec2Isabelle
  imports Main "HOL-Library.AList"
begin

section \<open>Python values used by graphspec\<close>

text \<open>
  Strings are Python 2 unicode strings (the module sets \<open>unicode_literals\<close> and decodes
  its input); a \<^typ>\<open>char\<close> stands for one code point below 256.  Dictionaries are
  association lists in insertion order, written with \<^const>\<open>AList.update\<close> (an existing
  key keeps its place, a new key goes last) and read with \<^const>\<open>map_of\<close>.
\<close>

datatype error =
    ValueError
  | KeyError
  | AttributeError
  | RuntimeError
  | NetworkXError
  | NodeNotFound
  | NetworkXNoPath
  | NetworkXUnfeasible

text \<open>\<open>unicode.isspace\<close> on the code points below 256.\<close>

definition isspace :: "char \<Rightarrow> bool" where
  "isspace c =
     (let n = (of_char c :: nat)
      in (9 \<le> n \<and> n \<le> 13) \<or> (28 \<le> n \<and> n \<le> 32) \<or> n = 133 \<or> n = 160)"

text \<open>\<open>s.strip()\<close>\<close>

definition strip :: "string \<Rightarrow> string" where
  "strip s = rev (dropWhile isspace (rev (dropWhile isspace s)))"

text \<open>\<open>s.split(sep)\<close> for a one-character separator: never the empty list.\<close>

fun split_on :: "char \<Rightarrow> string \<Rightarrow> string \<Rightarrow> string list" where
  "split_on sep cur [] = [cur]"
| "split_on sep cur (c # cs) =
     (if c = sep then cur # split_on sep [] cs else split_on sep (cur @ [c]) cs)"

definition split :: "char \<Rightarrow> string \<Rightarrow> string list" where
  "split sep s = split_on sep [] s"

text \<open>
  \<open>re.split(' *, *', s)\<close>: the pattern matches at the leftmost place where a run of
  spaces (possibly empty) is followed by a comma, and takes the spaces after the comma too.
\<close>

function re_split_comma :: "string \<Rightarrow> string \<Rightarrow> string list" where
  "re_split_comma cur [] = [cur]"
| "re_split_comma cur (c # cs) =
     (case dropWhile (\<lambda>x. x = CHR '' '') (c # cs) of
        [] \<Rightarrow> re_split_comma (cur @ [c]) cs
      | d # ds \<Rightarrow>
          if d = CHR '','' then cur # re_split_comma [] (dropWhile (\<lambda>x. x = CHR '' '') ds)
          else re_split_comma (cur @ [c]) cs)"
  by pat_completeness auto

lemma length_dropWhile_tail:
  "dropWhile P xs = d # ds \<Longrightarrow> length (dropWhile Q ds) < length xs"
proof -
  assume a: "dropWhile P xs = d # ds"
  have "length (dropWhile Q ds) \<le> length ds" by (rule length_dropWhile_le)
  also have "length ds < length (dropWhile P xs)" using a by simp
  also have "\<dots> \<le> length xs" by (rule length_dropWhile_le)
  finally show ?thesis .
qed

termination re_split_comma
  by (relation "measure (\<lambda>(cur, s). length s)")
     (auto simp del: dropWhile.simps dest: length_dropWhile_tail)

text \<open>\<open>json.dumps(s)\<close> for a string, with the default \<open>ensure_ascii=True\<close>.\<close>

definition hex_digit :: "nat \<Rightarrow> char" where
  "hex_digit n = ''0123456789abcdef'' ! (n mod 16)"

definition json_escape_char :: "char \<Rightarrow> string" where
  "json_escape_char c =
     (if c = CHR ''\"'' then [CHR 0x5C, CHR ''\"'']
      else if c = CHR 0x5C then [CHR 0x5C, CHR 0x5C]
      else if c = CHR 0x0A then [CHR 0x5C, CHR ''n'']
      else if c = CHR 0x0D then [CHR 0x5C, CHR ''r'']
      else if c = CHR 0x09 then [CHR 0x5C, CHR ''t'']
      else if c = CHR 0x08 then [CHR 0x5C, CHR ''b'']
      else if c = CHR 0x0C then [CHR 0x5C, CHR ''f'']
      else if 32 \<le> (of_char c :: nat) \<and> (of_char c :: nat) \<le> 126 then [c]
      else [CHR 0x5C, CHR ''u'', CHR ''0'', CHR ''0'',
            hex_digit ((of_char c :: nat) div 16), hex_digit (of_char c :: nat)])"

definition json_dumps :: "string \<Rightarrow> string" where
  "json_dumps s = [CHR ''\"''] @ concat (map json_escape_char s) @ [CHR ''\"'']"

section \<open>Statements\<close>

text \<open>
  A statement is the dictionary \<open>dict(r)\<close> of one parse result: each of the seven result
  names is present (\<open>Some\<close>) or absent (\<open>None\<close>).
\<close>

record statement =
  st_start :: "string option"
  st_end :: "string option"
  st_node :: "string option"
  st_directive :: "string option"
  st_label :: "string option"
  st_comment :: "string option"
  st_data :: "string option"

definition empty_statement :: statement where
  "empty_statement =
     \<lparr>st_start = None, st_end = None, st_node = None, st_directive = None,
      st_label = None, st_comment = None, st_data = None\<rparr>"

text \<open>\<open>statement.get(key)\<close> used as a condition: the key is present and its text is not empty.\<close>

definition truthy :: "string option \<Rightarrow> bool" where
  "truthy v = (case v of None \<Rightarrow> False | Some s \<Rightarrow> s \<noteq> [])"

section \<open>The networkx digraph\<close>

text \<open>
  \<open>networkx.DiGraph\<close>: a dictionary of nodes with their attribute dictionaries, and the
  edges with theirs.  The only node attributes graphspec writes are \<open>subgraph=True\<close> and
  \<open>label\<close>; the only edge attributes are \<open>comment\<close>, \<open>label\<close> and
  \<open>is_subgraph_relation=True\<close>.  Iteration follows insertion order, as the dictionaries
  of Python 3.7 and later do; the hash order of a Python 2 dictionary is not reproduced,
  and no property below depends on the order.
\<close>

record node_data =
  nd_subgraph :: bool
  nd_label :: "string option"

record edge_data =
  ed_comment :: "string option"
  ed_label :: "string option"
  ed_is_subgraph_relation :: bool

record digraph =
  dg_node :: "(string \<times> node_data) list"
  dg_edges :: "((string \<times> string) \<times> edge_data) list"

definition empty_digraph :: digraph where
  "empty_digraph = \<lparr>dg_node = [], dg_edges = []\<rparr>"

definition no_node_data :: node_data where
  "no_node_data = \<lparr>nd_subgraph = False, nd_label = None\<rparr>"

definition no_edge_data :: edge_data where
  "no_edge_data = \<lparr>ed_comment = None, ed_label = None, ed_is_subgraph_relation = False\<rparr>"

definition has_node :: "digraph \<Rightarrow> string \<Rightarrow> bool" where
  "has_node G n = (map_of (dg_node G) n \<noteq> None)"

definition add_node :: "string \<Rightarrow> digraph \<Rightarrow> digraph" where
  "add_node n G =
     (if has_node G n then G else G\<lparr>dg_node := dg_node G @ [(n, no_node_data)]\<rparr>)"

text \<open>\<open>datadict.update(attr)\<close>: the keys of \<open>attr\<close> are written, the others stay.\<close>

definition update_edge_data :: "edge_data \<Rightarrow> edge_data \<Rightarrow> edge_data" where
  "update_edge_data attr old =
     \<lparr>ed_comment = (case ed_comment attr of None \<Rightarrow> ed_comment old | Some c \<Rightarrow> Some c),
      ed_label = (case ed_label attr of None \<Rightarrow> ed_label old | Some l \<Rightarrow> Some l),
      ed_is_subgraph_relation = (ed_is_subgraph_relation attr \<or> ed_is_subgraph_relation old)\<rparr>"

text \<open>
  \<open>DiGraph.add_edge(u, v, **attr)\<close>: both end nodes are created when missing, and the
  edge's dictionary (a new empty one when the edge is new) is updated with \<open>attr\<close>.
\<close>

definition edge_data_of :: "digraph \<Rightarrow> string \<Rightarrow> string \<Rightarrow> edge_data option" where
  "edge_data_of G u v = map_of (dg_edges G) (u, v)"

definition add_edge :: "string \<Rightarrow> string \<Rightarrow> edge_data \<Rightarrow> digraph \<Rightarrow> digraph" where
  "add_edge u v attr G =
     (let G1 = add_node v (add_node u G);
          old = (case edge_data_of G1 u v of None \<Rightarrow> no_edge_data | Some d \<Rightarrow> d)
      in G1\<lparr>dg_edges := AList.update (u, v) (update_edge_data attr old) (dg_edges G1)\<rparr>)"

section \<open>The Graph class\<close>

record Graph =
  g :: digraph
  subgraphs :: digraph
  include_everything :: bool
  graph_attrs :: "string list"
  node_attrs :: "(string \<times> string) list"
  edge_attrs :: "(string \<times> (string \<times> string list) list) list"
  path_styles :: "string list"
  ascendant_styles :: "string list"
  descendant_styles :: "string list"

text \<open>\<open>Graph.__init__\<close>\<close>

definition init_Graph :: "bool \<Rightarrow> Graph" where
  "init_Graph ie =
     \<lparr>g = empty_digraph, subgraphs = empty_digraph, include_everything = ie,
      graph_attrs = [], node_attrs = [], edge_attrs = [],
      path_styles = [], ascendant_styles = [], descendant_styles = []\<rparr>"

text \<open>
  \<open>edge_attrs\<close> is a \<open>defaultdict\<close> of \<open>defaultdict(list)\<close>: reading
  \<open>edge_attrs[a][b]\<close> creates the missing entries.  \<open>edge_attrs_touch\<close> is the
  dictionary after such a read and \<open>edge_attrs_get\<close> the list read.
\<close>

definition edge_attrs_get ::
  "(string \<times> (string \<times> string list) list) list \<Rightarrow> string \<Rightarrow> string \<Rightarrow> string list" where
  "edge_attrs_get ea a b =
     (case map_of ea a of None \<Rightarrow> []
      | Some inner \<Rightarrow> (case map_of inner b of None \<Rightarrow> [] | Some l \<Rightarrow> l))"

definition edge_attrs_put ::
  "string \<Rightarrow> string \<Rightarrow> string list \<Rightarrow> (string \<times> (string \<times> string list) list) list
     \<Rightarrow> (string \<times> (string \<times> string list) list) list" where
  "edge_attrs_put a b l ea =
     AList.update a
       (AList.update b l (case map_of ea a of None \<Rightarrow> [] | Some inner \<Rightarrow> inner)) ea"

definition edge_attrs_touch ::
  "string \<Rightarrow> string \<Rightarrow> (string \<times> (string \<times> string list) list) list
     \<Rightarrow> (string \<times> (string \<times> string list) list) list" where
  "edge_attrs_touch a b ea = edge_attrs_put a b (edge_attrs_get ea a b) ea"

text \<open>
  Every method returns the exception it raised, if any, together with the Graph as the
  call left it: what was mutated before a \<open>raise\<close> stays mutated.
\<close>

type_synonym outcome = "error option \<times> Graph"

text \<open>\<open>Graph._handle_edge_statement\<close>\<close>

definition handle_edge_statement :: "statement \<Rightarrow> Graph \<Rightarrow> outcome" where
  "handle_edge_statement st G =
     (if (case st_directive st of None \<Rightarrow> ''attr'' | Some d \<Rightarrow> d) \<noteq> ''attr''
      then (Some ValueError, G)
      else case st_start st of
        None \<Rightarrow> (Some KeyError, G)
      | Some start \<Rightarrow>
         (case st_end st of
            None \<Rightarrow> (Some KeyError, G)
          | Some end \<Rightarrow>
             (let G1 = (case st_data st of
                          None \<Rightarrow> G
                        | Some data \<Rightarrow>
                            if data \<noteq> []
                            then G\<lparr>edge_attrs :=
                                   edge_attrs_put start end
                                     (edge_attrs_get (edge_attrs G) start end
                                        @ split (CHR '';'') (strip data))
                                     (edge_attrs G)\<rparr>
                            else G);
                  kwargs = \<lparr>ed_comment = (if truthy (st_comment st) then st_comment st else None),
                            ed_label = (if truthy (st_label st) then st_label st else None),
                            ed_is_subgraph_relation = False\<rparr>
              in (None, G1\<lparr>g := add_edge start end kwargs (g G1)\<rparr>))))"

text \<open>\<open>Graph._handle_subgraph\<close>\<close>

fun add_children :: "string \<Rightarrow> string list \<Rightarrow> digraph \<Rightarrow> digraph" where
  "add_children subgraph_id [] D = D"
| "add_children subgraph_id (child # children) D =
     add_children subgraph_id children
       (if child \<noteq> []
        then add_edge subgraph_id child
               \<lparr>ed_comment = None, ed_label = None, ed_is_subgraph_relation = True\<rparr> D
        else D)"

definition handle_subgraph :: "statement \<Rightarrow> Graph \<Rightarrow> outcome" where
  "handle_subgraph st G =
     (case st_data st of
        None \<Rightarrow> (Some KeyError, G)
      | Some data \<Rightarrow>
         (case st_node st of
            None \<Rightarrow> (Some KeyError, G)
          | Some subgraph_id \<Rightarrow>
             (let G1 = G\<lparr>g := add_children subgraph_id (re_split_comma [] data) (g G)\<rparr>
              in case map_of (dg_node (g G1)) subgraph_id of
                   None \<Rightarrow> (Some KeyError, G1)
                 | Some nd \<Rightarrow>
                     (None, G1\<lparr>g := (g G1)\<lparr>dg_node :=
                        AList.update subgraph_id
                          \<lparr>nd_subgraph = True,
                           nd_label = (if truthy (st_label st) then st_label st else nd_label nd)\<rparr>
                          (dg_node (g G1))\<rparr>\<rparr>))))"

text \<open>\<open>Graph._handle_node_statement\<close>\<close>

definition handle_node_statement :: "statement \<Rightarrow> Graph \<Rightarrow> outcome" where
  "handle_node_statement st G =
     (case st_directive st of
        None \<Rightarrow> (Some KeyError, G)
      | Some directive \<Rightarrow>
         (case st_node st of
            None \<Rightarrow> (Some KeyError, G)
          | Some node_id \<Rightarrow>
             if directive = ''subgraph'' then handle_subgraph st G
             else if directive = ''attr'' then
               (case st_data st of
                  None \<Rightarrow> (Some KeyError, G)
                | Some data \<Rightarrow>
                   if node_id = ''graph''
                   then (None, G\<lparr>graph_attrs := graph_attrs G @ [data]\<rparr>)
                   else
                     (let G1 = G\<lparr>node_attrs := AList.update node_id data (node_attrs G)\<rparr>
                      in case st_comment st of
                           None \<Rightarrow> (None, G1)
                         | Some comment \<Rightarrow>
                             if comment \<noteq> []
                             then (None, G1\<lparr>node_attrs :=
                                     AList.update node_id
                                       (''tooltip='' @ json_dumps comment @ data)
                                       (node_attrs G1)\<rparr>)
                             else (None, G1)))
             else (None, G)))"

text \<open>\<open>Graph.include_statement\<close>\<close>

definition include_statement :: "statement \<Rightarrow> Graph \<Rightarrow> outcome" where
  "include_statement st G =
     (if st_start st \<noteq> None then handle_edge_statement st G
      else handle_node_statement st G)"

text \<open>\<open>Graph.from_lines\<close> once the lines are scanned: the statements are applied in order and the
  first exception ends the loop.\<close>

fun include_statements :: "statement list \<Rightarrow> Graph \<Rightarrow> outcome" where
  "include_statements [] G = (None, G)"
| "include_statements (st # sts) G =
     (case include_statement st G of
        (Some e, G') \<Rightarrow> (Some e, G')
      | (None, G') \<Rightarrow> include_statements sts G')"

section \<open>The graph algorithms of networkx\<close>

definition nodes_of :: "digraph \<Rightarrow> string list" where
  "nodes_of D = map fst (dg_node D)"

text \<open>\<open>G[u]\<close>, the successors of \<open>u\<close>, and \<open>G.pred[v]\<close>, both in insertion order.\<close>

definition successors :: "digraph \<Rightarrow> string \<Rightarrow> string list" where
  "successors D u = map (\<lambda>e. snd (fst e)) (filter (\<lambda>e. fst (fst e) = u) (dg_edges D))"

definition predecessors :: "digraph \<Rightarrow> string \<Rightarrow> string list" where
  "predecessors D v = map (\<lambda>e. fst (fst e)) (filter (\<lambda>e. snd (fst e) = v) (dg_edges D))"

text \<open>\<open>G.edges(data=True)\<close>: node by node, each node's out-edges in insertion order.\<close>

definition edges_of :: "digraph \<Rightarrow> ((string \<times> string) \<times> edge_data) list" where
  "edges_of D = concat (map (\<lambda>u. filter (\<lambda>e. fst (fst e) = u) (dg_edges D)) (nodes_of D))"

text \<open>
  Breadth-first search, as networkx runs it for \<open>ancestors\<close>, \<open>descendants\<close>, the
  predecessor lists of the shortest paths and the weakly connected components: every
  round adds the neighbours of all nodes seen so far, each node where the search meets
  it first, so the list is in the order in which the search discovers the nodes.  The
  callers run as many rounds as the relation has pairs, after which nothing new can
  turn up.
\<close>

definition first_occurrences :: "'a list \<Rightarrow> 'a list" where
  "first_occurrences xs = rev (remdups (rev xs))"

fun reach_iter :: "('a \<Rightarrow> 'a list) \<Rightarrow> nat \<Rightarrow> 'a list \<Rightarrow> 'a list" where
  "reach_iter nb 0 seen = seen"
| "reach_iter nb (Suc k) seen =
     reach_iter nb k (first_occurrences (seen @ concat (map nb seen)))"

text \<open>
  \<open>networkx.descendants(G, source)\<close> and \<open>networkx.ancestors(G, source)\<close>: a
  \<open>NetworkXError\<close> for a node that is not in the graph, else every node found by the
  search along (against) the edges, the source itself taken out.
\<close>

definition descendants :: "digraph \<Rightarrow> string \<Rightarrow> error + string list" where
  "descendants D source =
     (if \<not> has_node D source then Inl NetworkXError
      else Inr (filter (\<lambda>n. n \<noteq> source)
                  (reach_iter (successors D) (length (dg_edges D)) [source])))"

definition ancestors :: "digraph \<Rightarrow> string \<Rightarrow> error + string list" where
  "ancestors D source =
     (if \<not> has_node D source then Inl NetworkXError
      else Inr (filter (\<lambda>n. n \<noteq> source)
                  (reach_iter (predecessors D) (length (dg_edges D)) [source])))"

text \<open>
  \<open>networkx.all_shortest_paths(G, source, target)\<close>.  networkx first runs
  \<open>predecessor(G, source)\<close>, a breadth-first search from the source that gives every node
  it reaches the list of its predecessors on the level before, in the order in which
  the search visits them; then it walks back from the target through these lists, first
  entry first.  \<open>order\<close> is the order in which the search discovers the nodes.  The paths
  with \<open>k\<close> edges that end in \<open>t\<close> are the paths with \<open>k - 1\<close> edges to a discovered node
  with an edge to \<open>t\<close>, extended by \<open>t\<close>; the result is the list for the least \<open>k\<close> that
  has a path, for which the nodes that contribute are the ones on the level before.  A
  source outside the graph is a \<open>NodeNotFound\<close>, a target that cannot be reached a
  \<open>NetworkXNoPath\<close>.
\<close>

definition bfs_order :: "digraph \<Rightarrow> string \<Rightarrow> string list" where
  "bfs_order D source = reach_iter (successors D) (length (dg_edges D)) [source]"

fun paths_of_length ::
  "digraph \<Rightarrow> string list \<Rightarrow> string \<Rightarrow> nat \<Rightarrow> string \<Rightarrow> string list list" where
  "paths_of_length D order s 0 t = (if t = s then [[s]] else [])"
| "paths_of_length D order s (Suc k) t =
     concat (map (\<lambda>u. map (\<lambda>p. p @ [t]) (paths_of_length D order s k u))
               (filter (\<lambda>u. t \<in> set (successors D u)) order))"

fun first_paths ::
  "digraph \<Rightarrow> string list \<Rightarrow> string \<Rightarrow> string \<Rightarrow> nat list \<Rightarrow> string list list option" where
  "first_paths D order s t [] = None"
| "first_paths D order s t (k # ks) =
     (if paths_of_length D order s k t \<noteq> [] then Some (paths_of_length D order s k t)
      else first_paths D order s t ks)"

definition all_shortest_paths :: "digraph \<Rightarrow> string \<Rightarrow> string \<Rightarrow> error + string list list" where
  "all_shortest_paths D source target =
     (if \<not> has_node D source then Inl NodeNotFound
      else case first_paths D (bfs_order D source) source target
                  [0 ..< Suc (length (dg_edges D))] of
             None \<Rightarrow> Inl NetworkXNoPath
           | Some ps \<Rightarrow> Inr ps)"

text \<open>
  \<open>networkx.algorithms.tree.is_forest(G)\<close> on a non-empty \<open>DiGraph\<close>: every weakly
  connected component has one node more than it has edges.  networkx reads the
  direction of the edges nowhere in this test.
\<close>

definition component :: "digraph \<Rightarrow> string \<Rightarrow> string list" where
  "component D n =
     reach_iter (\<lambda>x. successors D x @ predecessors D x) (2 * length (dg_edges D)) [n]"

definition is_forest :: "digraph \<Rightarrow> bool" where
  "is_forest D =
     list_all
       (\<lambda>n. length (component D n) =
            Suc (length (filter (\<lambda>e. fst (fst e) \<in> set (component D n)
                                   \<and> snd (fst e) \<in> set (component D n)) (dg_edges D))))
       (nodes_of D)"

text \<open>
  \<open>networkx.algorithms.dag.topological_sort(G)\<close> (networkx 2): the nodes without
  predecessors are stacked; the node on top is popped, the in-degree left to each of its
  children is lowered and a child that reaches zero is stacked; then the node is yielded.
  Nodes left over at the end are on a cycle: \<open>NetworkXUnfeasible\<close>, raised after the
  nodes yielded so far.
\<close>

fun kahn_children ::
  "string list \<Rightarrow> (string \<times> nat) list \<Rightarrow> string list
     \<Rightarrow> ((string \<times> nat) list \<times> string list) option" where
  "kahn_children [] indegree_map zero_indegree = Some (indegree_map, zero_indegree)"
| "kahn_children (child # cs) indegree_map zero_indegree =
     (case map_of indegree_map child of
        None \<Rightarrow> None
      | Some d \<Rightarrow>
          if d - 1 = 0
          then kahn_children cs (AList.delete child indegree_map) (zero_indegree @ [child])
          else kahn_children cs (AList.update child (d - 1) indegree_map) zero_indegree)"

lemma length_alist_delete:
  "map_of al k = Some v \<Longrightarrow> length (AList.delete k al) < length al"
  by (induction al) (auto simp add: AList.delete_eq less_Suc_eq_le intro: le_less_trans [OF length_filter_le] split: if_splits)

lemma length_alist_update:
  "map_of al k = Some v \<Longrightarrow> length (AList.update k w al) = length al"
  by (induction al) (auto split: if_splits)

lemma kahn_children_size:
  "kahn_children cs im zi = Some (im', zi')
     \<Longrightarrow> length im' + length zi' \<le> length im + length zi"
proof (induction cs arbitrary: im zi)
  case Nil
  then show ?case by simp
next
  case (Cons c cs)
  then obtain d where d: "map_of im c = Some d"
    by (auto split: option.splits)
  show ?case
  proof (cases "d - 1 = 0")
    case True
    with Cons.prems d
    have "kahn_children cs (AList.delete c im) (zi @ [c]) = Some (im', zi')" by simp
    from Cons.IH [OF this] length_alist_delete [OF d] show ?thesis by simp
  next
    case False
    with Cons.prems d
    have "kahn_children cs (AList.update c (d - 1) im) zi = Some (im', zi')" by simp
    from Cons.IH [OF this] length_alist_update [OF d] show ?thesis by simp
  qed
qed

function topological_sort_loop ::
  "digraph \<Rightarrow> (string \<times> nat) list \<Rightarrow> string list \<Rightarrow> string list \<times> error option" where
  "topological_sort_loop D indegree_map zero_indegree =
     (if zero_indegree = []
      then ([], if indegree_map \<noteq> [] then Some NetworkXUnfeasible else None)
      else case kahn_children (successors D (last zero_indegree)) indegree_map
                  (butlast zero_indegree) of
             None \<Rightarrow> ([], Some RuntimeError)
           | Some (im, zi) \<Rightarrow>
               (case topological_sort_loop D im zi of
                  (rest, e) \<Rightarrow> (last zero_indegree # rest, e)))"
  by pat_completeness auto

termination topological_sort_loop
proof (relation "measure (\<lambda>(D, im, zi). length im + length zi)", goal_cases)
  case 1
  show ?case by simp
next
  case (2 D indegree_map zero_indegree x2 im zi)
  from kahn_children_size [of "successors D (last zero_indegree)" indegree_map
      "butlast zero_indegree" im zi] 2
  show ?case by (cases zero_indegree rule: rev_cases) auto
qed

declare topological_sort_loop.simps [simp del]

definition topological_sort :: "digraph \<Rightarrow> string list \<times> error option" where
  "topological_sort D =
     topological_sort_loop D
       (filter (\<lambda>(v, d). d > 0) (map (\<lambda>v. (v, length (predecessors D v))) (nodes_of D)))
       (filter (\<lambda>v. length (predecessors D v) = 0) (nodes_of D))"

section \<open>Style resolution\<close>

definition NODE_STYLES :: "(string \<times> string) list" where
  "NODE_STYLES =
     [(''highlight'', ''style=\"filled\"; fillcolor=\"pink\"''),
      (''pink'', ''style=\"filled\"; fillcolor=\"pink\"''),
      (''green'', ''style=\"filled\"; fillcolor=\"green\"'')]"

text \<open>\<open>NODE_STYLES.get(attrs, attrs)\<close>\<close>

definition node_style :: "string \<Rightarrow> string" where
  "node_style attrs = (case map_of NODE_STYLES attrs of None \<Rightarrow> attrs | Some s \<Rightarrow> s)"

text \<open>
  \<open>re.match('([^ ]+) *: *(.*)', spec)\<close>.  The first group is a prefix of the leading run of
  non-space characters, as long as the backtracking allows: \<open>match_colon_at s k\<close> tries
  the prefix of length \<open>k\<close>, which must be followed by spaces (none when \<open>k\<close> is inside
  the run) and a colon; the second group is what follows the colon and its spaces, up to
  the end of the line.  \<open>None\<close> is the \<open>None\<close> of \<open>re.match\<close>.
\<close>

definition match_colon_at :: "string \<Rightarrow> nat \<Rightarrow> (string \<times> string) option" where
  "match_colon_at s k =
     (case dropWhile (\<lambda>c. c = CHR '' '') (drop k s) of
        [] \<Rightarrow> None
      | c # r \<Rightarrow>
          if c = CHR '':''
          then Some (take k s,
                     takeWhile (\<lambda>c. c \<noteq> CHR 0x0A) (dropWhile (\<lambda>c. c = CHR '' '') r))
          else None)"

fun first_match :: "(nat \<Rightarrow> 'a option) \<Rightarrow> nat list \<Rightarrow> 'a option" where
  "first_match f [] = None"
| "first_match f (k # ks) = (case f k of None \<Rightarrow> first_match f ks | Some r \<Rightarrow> Some r)"

definition match_node_spec :: "string \<Rightarrow> (string \<times> string) option" where
  "match_node_spec s =
     first_match (match_colon_at s)
       (rev [1 ..< Suc (length (takeWhile (\<lambda>c. c \<noteq> CHR '' '') s))])"

text \<open>
  \<open>re.match('([^ ]+) to ([^ ]+) *: *(.*)', spec)\<close>: the first group is the whole leading
  run of non-space characters, since \<open>' to '\<close> must follow it.
\<close>

definition match_path_spec :: "string \<Rightarrow> (string \<times> string \<times> string) option" where
  "match_path_spec s =
     (let start = takeWhile (\<lambda>c. c \<noteq> CHR '' '') s;
          rest = drop (length start) s
      in if start \<noteq> [] \<and> take 4 rest = '' to ''
         then (case match_node_spec (drop 4 rest) of
                 None \<Rightarrow> None
               | Some (end, attrs) \<Rightarrow> Some (start, end, attrs))
         else None)"

text \<open>\<open>self.node_attrs.get(node, '')\<close>\<close>

definition node_attrs_get :: "(string \<times> string) list \<Rightarrow> string \<Rightarrow> string" where
  "node_attrs_get na n = (case map_of na n of None \<Rightarrow> [] | Some v \<Rightarrow> v)"

text \<open>
  The innermost loop of the three style loops:
  \<open>self.node_attrs[node] = attrs + ';' + self.node_attrs.get(node, '')\<close> for each node.
\<close>

fun prepend_style ::
  "string \<Rightarrow> string list \<Rightarrow> (string \<times> string) list \<Rightarrow> (string \<times> string) list" where
  "prepend_style attrs [] na = na"
| "prepend_style attrs (n # ns) na =
     prepend_style attrs ns (AList.update n (attrs @ '';'' @ node_attrs_get na n) na)"

text \<open>
  The bodies of the loops over \<open>ascendant_styles\<close>, \<open>descendant_styles\<close> and
  \<open>path_styles\<close>.  \<open>.groups()\<close> on the \<open>None\<close> of a failed match is an \<open>AttributeError\<close>.
\<close>

definition ancestor_style :: "string \<Rightarrow> Graph \<Rightarrow> outcome" where
  "ancestor_style ancestor_spec G =
     (case match_node_spec ancestor_spec of
        None \<Rightarrow> (Some AttributeError, G)
      | Some (node_id, attrs) \<Rightarrow>
         (case ancestors (g G) node_id of
            Inl e \<Rightarrow> (Some e, G)
          | Inr ns \<Rightarrow>
              (None, G\<lparr>node_attrs := prepend_style (node_style attrs) ns (node_attrs G)\<rparr>)))"

definition descendant_style :: "string \<Rightarrow> Graph \<Rightarrow> outcome" where
  "descendant_style descendant_spec G =
     (case match_node_spec descendant_spec of
        None \<Rightarrow> (Some AttributeError, G)
      | Some (node_id, attrs) \<Rightarrow>
         (case descendants (g G) node_id of
            Inl e \<Rightarrow> (Some e, G)
          | Inr ns \<Rightarrow>
              (None, G\<lparr>node_attrs := prepend_style (node_style attrs) ns (node_attrs G)\<rparr>)))"

definition path_style :: "string \<Rightarrow> Graph \<Rightarrow> outcome" where
  "path_style path_style_spec G =
     (case match_path_spec path_style_spec of
        None \<Rightarrow> (Some AttributeError, G)
      | Some (start, end, attrs) \<Rightarrow>
         (case all_shortest_paths (g G) start end of
            Inl e \<Rightarrow> (Some e, G)
          | Inr paths \<Rightarrow>
              (None, G\<lparr>node_attrs :=
                        prepend_style (node_style attrs) (concat paths) (node_attrs G)\<rparr>)))"

fun for_each :: "('a \<Rightarrow> Graph \<Rightarrow> outcome) \<Rightarrow> 'a list \<Rightarrow> Graph \<Rightarrow> outcome" where
  "for_each body [] G = (None, G)"
| "for_each body (x # xs) G =
     (case body x G of
        (Some e, G') \<Rightarrow> (Some e, G')
      | (None, G') \<Rightarrow> for_each body xs G')"

text \<open>The three style loops of \<open>render_dot\<close>, one after the other.\<close>

definition resolve_styles :: "Graph \<Rightarrow> outcome" where
  "resolve_styles G =
     (case for_each ancestor_style (ascendant_styles G) G of
        (Some e, G1) \<Rightarrow> (Some e, G1)
      | (None, G1) \<Rightarrow>
         (case for_each descendant_style (descendant_styles G1) G1 of
            (Some e, G2) \<Rightarrow> (Some e, G2)
          | (None, G2) \<Rightarrow> for_each path_style (path_styles G2) G2))"

section \<open>Rendering\<close>

text \<open>\<open>sep.join(parts)\<close>\<close>

fun join :: "string \<Rightarrow> string list \<Rightarrow> string" where
  "join sep [] = []"
| "join sep [x] = x"
| "join sep (x # y # ys) = x @ sep @ join sep (y # ys)"

text \<open>\<open>Graph.should_include_node\<close>\<close>

definition should_include_node :: "Graph \<Rightarrow> string \<Rightarrow> bool" where
  "should_include_node G node_id =
     (include_everything G \<or> successors (g G) node_id \<noteq> [] \<or>
      list_ex (\<lambda>e. snd (fst e) = node_id \<and> \<not> ed_is_subgraph_relation (snd e))
        (dg_edges (g G)))"

text \<open>\<open>Graph.render_node\<close>\<close>

definition render_node :: "Graph \<Rightarrow> string \<Rightarrow> string" where
  "render_node G node_id =
     ''\"'' @ node_id @ ''\" [id=\"'' @ node_id @ ''\"; ''
       @ node_attrs_get (node_attrs G) node_id @ ''];''"

text \<open>
  The lines \<open>render_subgraph\<close> starts with: the cluster's name (the dots of the node id
  replaced), its id, its attributes when it has any, and its label (\<open>nd\<close> is
  \<open>self.g.node[root]\<close>).
\<close>

definition subgraph_header :: "Graph \<Rightarrow> string \<Rightarrow> node_data \<Rightarrow> string list" where
  "subgraph_header G root nd =
     [''subgraph cluster_'' @ map (\<lambda>c. if c = CHR ''.'' then CHR ''_'' else c) root @ '' {'',
      ''id=\"'' @ root @ ''\";'']
     @ (if node_attrs_get (node_attrs G) root \<noteq> []
        then [node_attrs_get (node_attrs G) root] else [])
     @ [''label=\"'' @ (case nd_label nd of None \<Rightarrow> [] | Some l \<Rightarrow> l)
          @ ''\"; style=dashed;'']"

text \<open>
  \<open>Graph.render_subgraph\<close>, with its loop over the children as \<open>render_children\<close>.  The
  method calls itself for a child that is a subgraph and adds the child to
  \<open>already_visited\<close> only afterwards, so the recursion need not end; \<open>depth\<close> is the number
  of nested calls the interpreter still allows, and running out of it is the
  \<open>RuntimeError\<close> of Python 2 for a recursion that is too deep.
\<close>

fun render_subgraph ::
      "Graph \<Rightarrow> nat \<Rightarrow> string \<Rightarrow> string list \<Rightarrow> error + (string \<times> string list)"
  and render_children ::
      "Graph \<Rightarrow> nat \<Rightarrow> string list \<Rightarrow> string list \<Rightarrow> string list
         \<Rightarrow> error + (string list \<times> string list)" where
  "render_subgraph G 0 root already_visited = Inl RuntimeError"
| "render_subgraph G (Suc depth) root already_visited =
     (case map_of (dg_node (g G)) root of
        None \<Rightarrow> Inl KeyError
      | Some nd \<Rightarrow>
         (case render_children G depth (successors (g G) root) (subgraph_header G root nd)
                 already_visited of
            Inl e \<Rightarrow> Inl e
          | Inr (dot, visited) \<Rightarrow> Inr (join [CHR 0x0A] (dot @ [''}'']), visited)))"
| "render_children G depth [] dot already_visited = Inr (dot, already_visited)"
| "render_children G depth (child # cs) dot already_visited =
     (if child \<in> set already_visited then render_children G depth cs dot already_visited
      else case map_of (dg_node (g G)) child of
        None \<Rightarrow> Inl KeyError
      | Some nd \<Rightarrow>
          if nd_subgraph nd
          then (case render_subgraph G depth child already_visited of
                  Inl e \<Rightarrow> Inl e
                | Inr (subsub, visited) \<Rightarrow>
                    render_children G depth cs (dot @ [subsub]) (child # visited))
          else render_children G depth cs
                 (if should_include_node G child then dot @ [render_node G child] else dot)
                 (child # already_visited))"

text \<open>The subgraph relations collected at the start of \<open>render_dot\<close>.\<close>

definition subgraph_relations :: "digraph \<Rightarrow> digraph" where
  "subgraph_relations D =
     fold (\<lambda>e S. add_edge (fst (fst e)) (snd (fst e)) no_edge_data S)
       (filter (\<lambda>e. ed_is_subgraph_relation (snd e)) (edges_of D)) empty_digraph"

text \<open>The loop of \<open>render_dot\<close> over the topological order of the subgraph relations.\<close>

fun render_clusters ::
  "Graph \<Rightarrow> nat \<Rightarrow> string list \<Rightarrow> string list \<Rightarrow> string list
     \<Rightarrow> error + (string list \<times> string list)" where
  "render_clusters G limit [] dot already_visited = Inr (dot, already_visited)"
| "render_clusters G limit (node # ns) dot already_visited =
     (if node \<in> set already_visited then render_clusters G limit ns dot already_visited
      else case map_of (dg_node (g G)) node of
        None \<Rightarrow> Inl KeyError
      | Some nd \<Rightarrow>
          if nd_subgraph nd
          then (case render_subgraph G limit node (node # already_visited) of
                  Inl e \<Rightarrow> Inl e
                | Inr (text, visited) \<Rightarrow> render_clusters G limit ns (dot @ [text]) visited)
          else render_clusters G limit ns dot (node # already_visited))"

text \<open>
  The line of one edge: its synthetic id, the fragments of \<open>edge_attrs[a][b]\<close>, and the
  tooltip and label of a non-empty comment and label.
\<close>

definition render_edge :: "string \<Rightarrow> string \<Rightarrow> string list \<Rightarrow> edge_data \<Rightarrow> string" where
  "render_edge a b fragments edge_data =
     ''\"'' @ a @ ''\" -> \"'' @ b @ ''\" [''
       @ join ''; ''
           ([''id=\"'' @ a @ ''/'' @ b @ ''\"''] @ fragments
            @ (case ed_comment edge_data of
                 None \<Rightarrow> []
               | Some c \<Rightarrow> if c \<noteq> [] then [''tooltip='' @ json_dumps c] else [])
            @ (case ed_label edge_data of
                 None \<Rightarrow> []
               | Some l \<Rightarrow> if l \<noteq> [] then [''label='' @ json_dumps l] else []))
       @ '']''"

text \<open>
  The loop of \<open>render_dot\<close> over the edges.  Reading \<open>self.edge_attrs[a][b]\<close> creates the
  entry when it is missing, so the loop returns the dictionary too.
\<close>

fun render_edges ::
  "((string \<times> string) \<times> edge_data) list \<Rightarrow> (string \<times> (string \<times> string list) list) list
     \<Rightarrow> string list \<times> (string \<times> (string \<times> string list) list) list" where
  "render_edges [] ea = ([], ea)"
| "render_edges (((a, b), edge_data) # es) ea =
     (if ed_is_subgraph_relation edge_data then render_edges es ea
      else case render_edges es (edge_attrs_touch a b ea) of
        (lines, ea') \<Rightarrow>
          (render_edge a b (edge_attrs_get ea a b) edge_data # lines, ea'))"

text \<open>The last loop of \<open>render_dot\<close>, over the nodes that no cluster has shown.\<close>

definition render_nodes :: "Graph \<Rightarrow> string list \<Rightarrow> string list" where
  "render_nodes G already_visited =
     map (render_node G)
       (filter (\<lambda>n. n \<notin> set already_visited \<and> should_include_node G n) (nodes_of (g G)))"

text \<open>
  The lines \<open>render_dot\<close> starts with: the opening and the graph attributes.  The
  character between \<open>G\<close> and the brace in the source is a no-break space (U+00A0).
\<close>

definition digraph_header :: "Graph \<Rightarrow> string list" where
  "digraph_header G =
     [''digraph G'' @ [CHR 0xA0] @ ''{'']
     @ (if graph_attrs G \<noteq> [] then [join ''; '' (graph_attrs G) @ '';''] else [])"

text \<open>
  \<open>Graph.render_dot\<close>.  The result is the exception raised or the text returned, and the
  Graph as the call left it.  \<open>limit\<close> is the recursion depth left to \<open>render_subgraph\<close>.
\<close>

definition render_dot :: "nat \<Rightarrow> Graph \<Rightarrow> (error + string) \<times> Graph" where
  "render_dot limit G =
     (if dg_node (subgraph_relations (g G)) \<noteq> [] \<and> \<not> is_forest (subgraph_relations (g G))
      then (Inl ValueError, G)
      else case resolve_styles G of
        (Some e, G1) \<Rightarrow> (Inl e, G1)
      | (None, G1) \<Rightarrow>
         (case render_clusters G1 limit (fst (topological_sort (subgraph_relations (g G))))
                 (digraph_header G) [] of
            Inl e \<Rightarrow> (Inl e, G1)
          | Inr (dot, already_visited) \<Rightarrow>
             (case snd (topological_sort (subgraph_relations (g G))) of
                Some e \<Rightarrow> (Inl e, G1)
              | None \<Rightarrow>
                 (case render_edges (edges_of (g G1)) (edge_attrs G1) of
                    (edge_lines, ea) \<Rightarrow>
                      (Inr (join [CHR 0x0A]
                              (dot @ edge_lines
                               @ render_nodes (G1\<lparr>edge_attrs := ea\<rparr>) already_visited
                               @ [''}''])),
                       G1\<lparr>edge_attrs := ea\<rparr>)))))"

section \<open>The grammar scanner\<close>

text \<open>
  The grammar is written with pyparsing.  Every token skips the white space in front of
  it (space, newline, tab, carriage return); a sequence \<open>+\<close> matches its parts one after
  the other and never goes back into a part that has matched; an alternative \<open>|\<close>
  (\<open>MatchFirst\<close>) takes the first branch that matches.  A parser here takes the text
  left to read and returns what it matched and the text after it, or \<open>None\<close> for a
  \<open>ParseException\<close>; the parsers of the grammar add their named results to the statement
  they are given.
\<close>

definition skip_white :: "string \<Rightarrow> string" where
  "skip_white s =
     dropWhile (\<lambda>c. c = CHR '' '' \<or> c = CHR 0x0A \<or> c = CHR 0x09 \<or> c = CHR 0x0D) s"

text \<open>\<open>Suppress(lit)\<close>\<close>

definition literal :: "string \<Rightarrow> string \<Rightarrow> string option" where
  "literal lit s =
     (if take (length lit) (skip_white s) = lit then Some (drop (length lit) (skip_white s))
      else None)"

text \<open>The characters of \<open>alphanums + '._-'\<close>.\<close>

definition identifier_char :: "char \<Rightarrow> bool" where
  "identifier_char c =
     ((48 \<le> (of_char c :: nat) \<and> (of_char c :: nat) \<le> 57) \<or>
      (65 \<le> (of_char c :: nat) \<and> (of_char c :: nat) \<le> 90) \<or>
      (97 \<le> (of_char c :: nat) \<and> (of_char c :: nat) \<le> 122) \<or>
      c = CHR ''.'' \<or> c = CHR ''_'' \<or> c = CHR ''-'')"

text \<open>\<open>Identifier = Word(alphanums + '._-')\<close>: the longest run of such characters, not empty.\<close>

definition Identifier :: "string \<Rightarrow> (string \<times> string) option" where
  "Identifier s =
     (if takeWhile identifier_char (skip_white s) = [] then None
      else Some (takeWhile identifier_char (skip_white s),
                 dropWhile identifier_char (skip_white s)))"

text \<open>\<open>oneOf('subgraph attr allPaths ancestors descendants')\<close>\<close>

definition directive_keyword :: "string \<Rightarrow> (string \<times> string) option" where
  "directive_keyword s =
     (case find (\<lambda>kw. take (length kw) (skip_white s) = kw)
             [''subgraph'', ''attr'', ''allPaths'', ''ancestors'', ''descendants''] of
        None \<Rightarrow> None
      | Some kw \<Rightarrow> Some (kw, drop (length kw) (skip_white s)))"

text \<open>\<open>Regex('[^:]+')\<close> and \<open>Regex('.*')\<close>; the dot matches no newline.\<close>

definition regex_no_colon :: "string \<Rightarrow> (string \<times> string) option" where
  "regex_no_colon s =
     (if takeWhile (\<lambda>c. c \<noteq> CHR '':'') (skip_white s) = [] then None
      else Some (takeWhile (\<lambda>c. c \<noteq> CHR '':'') (skip_white s),
                 dropWhile (\<lambda>c. c \<noteq> CHR '':'') (skip_white s)))"

definition regex_rest :: "string \<Rightarrow> string \<times> string" where
  "regex_rest s =
     (takeWhile (\<lambda>c. c \<noteq> CHR 0x0A) (skip_white s),
      dropWhile (\<lambda>c. c \<noteq> CHR 0x0A) (skip_white s))"

text \<open>
  \<open>SkipTo(Literal('::'))\<close>: the text up to the first \<open>::\<close>, which stays unread; a
  \<open>ParseException\<close> when there is none.
\<close>

fun skip_to_colons :: "string \<Rightarrow> string \<Rightarrow> (string \<times> string) option" where
  "skip_to_colons skipped (c # d # s) =
     (if c = CHR '':'' \<and> d = CHR '':'' then Some (skipped, c # d # s)
      else skip_to_colons (skipped @ [c]) (d # s))"
| "skip_to_colons skipped s = None"

text \<open>\<open>edge = Identifier('start') + Suppress('-->') + Identifier('end')\<close>\<close>

definition edge :: "statement \<Rightarrow> string \<Rightarrow> (statement \<times> string) option" where
  "edge st s =
     (case Identifier s of
        None \<Rightarrow> None
      | Some (a, s1) \<Rightarrow>
         (case literal ''-->'' s1 of
            None \<Rightarrow> None
          | Some s2 \<Rightarrow>
             (case Identifier s2 of
                None \<Rightarrow> None
              | Some (b, s3) \<Rightarrow> Some (st\<lparr>st_start := Some a, st_end := Some b\<rparr>, s3))))"

text \<open>\<open>entity = edge | Identifier('node')\<close>\<close>

definition entity :: "statement \<Rightarrow> string \<Rightarrow> (statement \<times> string) option" where
  "entity st s =
     (case edge st s of
        Some r \<Rightarrow> Some r
      | None \<Rightarrow>
         (case Identifier s of
            None \<Rightarrow> None
          | Some (n, s1) \<Rightarrow> Some (st\<lparr>st_node := Some n\<rparr>, s1)))"

text \<open>\<open>labelledEntity = entity + Suppress(',') + Regex('[^:]+')('label')\<close>\<close>

definition labelledEntity :: "statement \<Rightarrow> string \<Rightarrow> (statement \<times> string) option" where
  "labelledEntity st s =
     (case entity st s of
        None \<Rightarrow> None
      | Some (st1, s1) \<Rightarrow>
         (case literal '','' s1 of
            None \<Rightarrow> None
          | Some s2 \<Rightarrow>
             (case regex_no_colon s2 of
                None \<Rightarrow> None
              | Some (l, s3) \<Rightarrow> Some (st1\<lparr>st_label := Some l\<rparr>, s3))))"

text \<open>\<open>entityDetails = labelledEntity | entity\<close>\<close>

definition entityDetails :: "statement \<Rightarrow> string \<Rightarrow> (statement \<times> string) option" where
  "entityDetails st s =
     (case labelledEntity st s of Some r \<Rightarrow> Some r | None \<Rightarrow> entity st s)"

text \<open>
  \<open>data\<close>: everything up to a \<open>::\<close> and the comment after it, or else the rest of the
  line.  Both branches end in \<open>Regex('.*')\<close>, so one of them matches.
\<close>

definition data :: "statement \<Rightarrow> string \<Rightarrow> statement \<times> string" where
  "data st s =
     (case skip_to_colons [] (skip_white s) of
        Some (d, s1) \<Rightarrow>
          (st\<lparr>st_data := Some d, st_comment := Some (fst (regex_rest (drop 2 s1)))\<rparr>,
           snd (regex_rest (drop 2 s1)))
      | None \<Rightarrow> (st\<lparr>st_data := Some (fst (regex_rest s))\<rparr>, snd (regex_rest s)))"

text \<open>\<open>directive = header + entityDetails + Suppress(':') + data\<close>\<close>

definition directive :: "string \<Rightarrow> (statement \<times> string) option" where
  "directive s =
     (case literal ''..'' s of
        None \<Rightarrow> None
      | Some s1 \<Rightarrow>
         (case directive_keyword s1 of
            None \<Rightarrow> None
          | Some (kw, s2) \<Rightarrow>
             (case literal '':'' s2 of
                None \<Rightarrow> None
              | Some s3 \<Rightarrow>
                 (case entityDetails (empty_statement\<lparr>st_directive := Some kw\<rparr>) s3 of
                    None \<Rightarrow> None
                  | Some (st, s4) \<Rightarrow>
                     (case literal '':'' s4 of
                        None \<Rightarrow> None
                      | Some s5 \<Rightarrow> Some (data st s5))))))"

text \<open>\<open>edgeSpec = MatchFirst((edge + Suppress('::') + comment, edge))\<close>\<close>

definition edgeSpec :: "string \<Rightarrow> (statement \<times> string) option" where
  "edgeSpec s =
     (case edge empty_statement s of
        None \<Rightarrow> None
      | Some (st, s1) \<Rightarrow>
         (case literal ''::'' s1 of
            None \<Rightarrow> Some (st, s1)
          | Some s2 \<Rightarrow>
              Some (st\<lparr>st_comment := Some (fst (regex_rest s2))\<rparr>, snd (regex_rest s2))))"

text \<open>\<open>parser = directive | edgeSpec\<close>\<close>

definition parser :: "string \<Rightarrow> (statement \<times> string) option" where
  "parser s = (case directive s of Some r \<Rightarrow> Some r | None \<Rightarrow> edgeSpec s)"

text \<open>
  \<open>parser.searchString(line)\<close>, the loop of \<open>scanString\<close>: white space is skipped, the
  parser is tried, a match that ends behind the place the round started from is yielded
  and the scan goes on behind it; otherwise the scan goes on one character further.
\<close>

function scan :: "string \<Rightarrow> statement list" where
  "scan s =
     (case parser (skip_white s) of
        Some (st, rest) \<Rightarrow>
          if length rest < length s then st # scan rest
          else if skip_white s = [] then [] else scan (tl (skip_white s))
      | None \<Rightarrow> if skip_white s = [] then [] else scan (tl (skip_white s)))"
  by pat_completeness auto

lemma length_tl_skip_white:
  "skip_white s \<noteq> [] \<Longrightarrow> length (skip_white s) - Suc 0 < length s"
proof -
  assume "skip_white s \<noteq> []"
  then have "length (skip_white s) - Suc 0 < length (skip_white s)" by simp
  also have "\<dots> \<le> length s" unfolding skip_white_def by (rule length_dropWhile_le)
  finally show ?thesis .
qed

termination scan
  by (relation "measure length") (auto intro: length_tl_skip_white)

declare scan.simps [simp del]

text \<open>\<open>str.expandtabs()\<close>, which \<open>scanString\<close> applies to the line first.\<close>

fun expandtabs :: "nat \<Rightarrow> string \<Rightarrow> string" where
  "expandtabs col [] = []"
| "expandtabs col (c # cs) =
     (if c = CHR 0x09
      then replicate (8 - col mod 8) (CHR '' '') @ expandtabs (col + (8 - col mod 8)) cs
      else if c = CHR 0x0A \<or> c = CHR 0x0D then c # expandtabs 0 cs
      else c # expandtabs (Suc col) cs)"

text \<open>\<open>search_for_statements\<close>\<close>

definition search_for_statements :: "string \<Rightarrow> statement list" where
  "search_for_statements line = scan (expandtabs 0 line)"

text \<open>
  \<open>Graph.from_lines\<close> and \<open>Graph.from_string\<close>.  Scanning a line reads no Graph, so the
  lines are scanned first and the statements applied afterwards.
\<close>

definition from_lines :: "string list \<Rightarrow> bool \<Rightarrow> outcome" where
  "from_lines lines ie =
     include_statements (concat (map search_for_statements lines)) (init_Graph ie)"

definition from_string :: "string \<Rightarrow> bool \<Rightarrow> outcome" where
  "from_string text ie = from_lines (split (CHR 0x0A) text) ie"

section \<open>Reachability and shortest paths, as relations\<close>

text \<open>
  The edges of a digraph as a relation, and the relation of a neighbour function; the
  properties of the algorithms above are stated against them.
\<close>

definition edge_rel :: "digraph \<Rightarrow> (string \<times> string) set" where
  "edge_rel D = set (map fst (dg_edges D))"

definition nb_rel :: "('a \<Rightarrow> 'a list) \<Rightarrow> ('a \<times> 'a) set" where
  "nb_rel nb = {(u, v). v \<in> set (nb u)}"

text \<open>
  A walk from \<open>s\<close> to \<open>t\<close> is a non-empty list of nodes from \<open>s\<close> to \<open>t\<close> that follows
  the edges; a shortest path is a walk that no walk from \<open>s\<close> to \<open>t\<close> undercuts.
\<close>

definition is_walk :: "digraph \<Rightarrow> string \<Rightarrow> string \<Rightarrow> string list \<Rightarrow> bool" where
  "is_walk D s t p =
     (p \<noteq> [] \<and> hd p = s \<and> last p = t \<and> successively (\<lambda>u v. (u, v) \<in> edge_rel D) p)"

definition is_shortest_path :: "digraph \<Rightarrow> string \<Rightarrow> string \<Rightarrow> string list \<Rightarrow> bool" where
  "is_shortest_path D s t p =
     (is_walk D s t p \<and> (\<forall>q. is_walk D s t q \<longrightarrow> length p \<le> length q))"

text \<open>The entry \<open>edge_attrs[a][b]\<close> exists: reading it creates nothing.\<close>

definition present :: "(string \<times> (string \<times> string list) list) list \<Rightarrow> string \<Rightarrow> string \<Rightarrow> bool" where
  "present ea a b =
     (case map_of ea a of None \<Rightarrow> False | Some inner \<Rightarrow> map_of inner b \<noteq> None)"

section \<open>The style pass, in the words of the specification\<close>

text \<open>
  The preset table: \<open>highlight\<close> and \<open>pink\<close> give filled pink, \<open>green\<close> gives filled green,
  any other text passes through as it is.
\<close>

definition preset_style :: "string \<Rightarrow> string" where
  "preset_style style_text =
     (if style_text = ''highlight'' \<or> style_text = ''pink''
      then ''style=\"filled\"; fillcolor=\"pink\"''
      else if style_text = ''green'' then ''style=\"filled\"; fillcolor=\"green\"''
      else style_text)"

text \<open>
  What one style spec puts in front of the \<open>node_attrs\<close> entry of the node \<open>n\<close>.  An
  ancestor (descendant) spec with the target and style text \<open>target_style\<close>: the resolved
  style text and \<open>;\<close> when \<open>n\<close> is not the target and the target can be reached from \<open>n\<close>
  (\<open>n\<close> can be reached from the target) along one edge or more, otherwise nothing.  A
  path spec with the two endpoints and the style text \<open>ends_style\<close>: the resolved style
  text and \<open>;\<close> once for every shortest path between the endpoints that \<open>n\<close> lies on.
\<close>

definition ancestor_prefix :: "digraph \<Rightarrow> string \<Rightarrow> string \<times> string \<Rightarrow> string" where
  "ancestor_prefix D n target_style =
     (if n \<noteq> fst target_style \<and> (n, fst target_style) \<in> (edge_rel D)\<^sup>+
      then preset_style (snd target_style) @ '';'' else [])"

definition descendant_prefix :: "digraph \<Rightarrow> string \<Rightarrow> string \<times> string \<Rightarrow> string" where
  "descendant_prefix D n target_style =
     (if n \<noteq> fst target_style \<and> (fst target_style, n) \<in> (edge_rel D)\<^sup>+
      then preset_style (snd target_style) @ '';'' else [])"

definition path_prefix :: "digraph \<Rightarrow> string \<Rightarrow> string \<times> string \<times> string \<Rightarrow> string" where
  "path_prefix D n ends_style =
     concat (replicate
       (card {p. is_shortest_path D (fst ends_style) (fst (snd ends_style)) p \<and> n \<in> set p})
       (preset_style (snd (snd ends_style)) @ '';''))"

text \<open>
  The dictionary \<open>na'\<close> is \<open>na\<close> with \<open>pre n\<close> put in front of the entry of every node \<open>n\<close>:
  the entries read with \<open>.get(n, '')\<close> are related so, and a node has no entry in \<open>na'\<close>
  exactly if it had none in \<open>na\<close> and \<open>pre n\<close> is empty.
\<close>

definition prepended ::
  "(string \<Rightarrow> string) \<Rightarrow> (string \<times> string) list \<Rightarrow> (string \<times> string) list \<Rightarrow> bool" where
  "prepended pre na na' =
     (\<forall>n. node_attrs_get na' n = pre n @ node_attrs_get na n \<and>
          (map_of na' n = None \<longleftrightarrow> map_of na n = None \<and> pre n = []))"

section \<open>Example graphs\<close>

definition edge_statement :: "string \<Rightarrow> string \<Rightarrow> statement" where
  "edge_statement a b = empty_statement\<lparr>st_start := Some a, st_end := Some b\<rparr>"

text \<open>The Graph built from the lines \<open>a --> b\<close> and \<open>b --> c\<close>.\<close>

definition chain :: Graph where
  "chain =
     (init_Graph False)
       \<lparr>g := \<lparr>dg_node = [(''a'', no_node_data), (''b'', no_node_data), (''c'', no_node_data)],
              dg_edges = [((''a'', ''b''), no_edge_data), ((''b'', ''c''), no_edge_data)]\<rparr>\<rparr>"

text \<open>The Graph built from the lines \<open>a --> b\<close>, \<open>a --> c\<close>, \<open>b --> d\<close> and \<open>c --> d\<close>.\<close>

definition diamond :: Graph where
  "diamond =
     (init_Graph False)
       \<lparr>g := \<lparr>dg_node = [(''a'', no_node_data), (''b'', no_node_data), (''c'', no_node_data),
                         (''d'', no_node_data)],
              dg_edges = [((''a'', ''b''), no_edge_data), ((''a'', ''c''), no_edge_data),
                          ((''b'', ''d''), no_edge_data), ((''c'', ''d''), no_edge_data)]\<rparr>\<rparr>"

text \<open>The Graph built from the lines \<open>..subgraph: p1: c\<close> and \<open>..subgraph: p2: c\<close>.\<close>

definition two_parents :: Graph where
  "two_parents =
     (init_Graph False)
       \<lparr>g := \<lparr>dg_node = [(''p1'', \<lparr>nd_subgraph = True, nd_label = None\<rparr>),
                         (''c'', no_node_data),
                         (''p2'', \<lparr>nd_subgraph = True, nd_label = None\<rparr>)],
              dg_edges =
                [((''p1'', ''c''),
                  \<lparr>ed_comment = None, ed_label = None, ed_is_subgraph_relation = True\<rparr>),
                 ((''p2'', ''c''),
                  \<lparr>ed_comment = None, ed_label = None, ed_is_subgraph_relation = True\<rparr>)]\<rparr>\<rparr>"

text \<open>
  The two Graphs above with an entry in \<open>node_attrs\<close> and with style specs in the lists
  that \<open>render_dot\<close> reads, as a caller of the class can set them.
\<close>

definition styled_chain :: Graph where
  "styled_chain =
     chain\<lparr>node_attrs := [(''a'', ''shape=box'')],
           ascendant_styles := [''c: green'', ''b : highlight''],
           descendant_styles := [''a: dotted'']\<rparr>"

definition styled_diamond :: Graph where
  "styled_diamond =
     diamond\<lparr>node_attrs := [(''a'', ''shape=box'')], path_styles := [''a to d: green'']\<rparr>"

section \<open>Properties of the graph builder\<close>

lemma dg_edges_add_node: "dg_edges (add_node n D) = dg_edges D"
  by (simp add: add_node_def)

lemma edge_data_of_add_edge_same:
  "edge_data_of (add_edge u v attr D) u v =
     Some (update_edge_data attr
             (case edge_data_of D u v of None \<Rightarrow> no_edge_data | Some d \<Rightarrow> d))"
  by (simp add: add_edge_def edge_data_of_def Let_def dg_edges_add_node update_conv')

lemma edge_data_of_add_edge_other:
  "(u', v') \<noteq> (u, v) \<Longrightarrow> edge_data_of (add_edge u v attr D) u' v' = edge_data_of D u' v'"
  by (auto simp add: add_edge_def edge_data_of_def Let_def dg_edges_add_node update_conv')

lemma edge_attrs_get_put_same: "edge_attrs_get (edge_attrs_put a b l ea) a b = l"
  by (simp add: edge_attrs_get_def edge_attrs_put_def update_conv')

lemma edge_attrs_get_put_other:
  "(a', b') \<noteq> (a, b) \<Longrightarrow>
     edge_attrs_get (edge_attrs_put a b l ea) a' b' = edge_attrs_get ea a' b'"
  by (auto simp add: edge_attrs_get_def edge_attrs_put_def update_conv' split: option.splits)

lemmas builder_defs =
  include_statement_def handle_edge_statement_def handle_node_statement_def
  handle_subgraph_def

lemmas concrete_defs =
  empty_statement_def init_Graph_def empty_digraph_def add_edge_def add_node_def has_node_def
  edge_data_of_def update_edge_data_def no_edge_data_def no_node_data_def truthy_def
  edge_attrs_get_def edge_attrs_put_def

subsection \<open>Errors of \<open>include_statement\<close>\<close>

text \<open>
  The \<open>ValueError\<close> of \<open>_handle_edge_statement\<close> is raised exactly for a statement with a
  \<open>start\<close> key whose directive is present and is not \<open>attr\<close>.
\<close>

lemma include_statement_ValueError_iff:
  "fst (include_statement st G) = Some ValueError \<longleftrightarrow>
     st_start st \<noteq> None \<and> (\<exists>d. st_directive st = Some d \<and> d \<noteq> ''attr'')"
  by (auto simp add: builder_defs Let_def split: option.splits if_splits)

text \<open>
  C3: applying a statement fails exactly when it is edge-shaped with a directive other
  than \<open>attr\<close>, and never otherwise.  The code does fail otherwise: the statement scanned
  from the line \<open>..subgraph: lonely: ,\<close> names no child, so \<open>_handle_subgraph\<close> adds no edge,
  the node \<open>lonely\<close> is never created, and \<open>self.g.node[subgraph_id]\<close> raises \<open>KeyError\<close>.
\<close>

theorem include_statement_subgraph_without_children_fails:
  "search_for_statements ''..subgraph: lonely: ,''
     = [empty_statement\<lparr>st_directive := Some ''subgraph'', st_node := Some ''lonely'',
          st_data := Some '',''\<rparr>] \<and>
   include_statement
     (empty_statement\<lparr>st_directive := Some ''subgraph'', st_node := Some ''lonely'',
        st_data := Some '',''\<rparr>)
     (init_Graph False)
   = (Some KeyError, init_Graph False) \<and>
   from_lines [''..subgraph: lonely: ,''] False = (Some KeyError, init_Graph False)"
  by code_simp

text \<open>
  C10: an edge-shaped statement whose directive is present and differs from \<open>attr\<close> raises
  before anything is mutated: the Graph after the failed call is the Graph before it.
\<close>

theorem include_statement_edge_error_atomic:
  "st_start st \<noteq> None \<Longrightarrow> st_directive st = Some d \<Longrightarrow> d \<noteq> ''attr''
   \<Longrightarrow> include_statement st G = (Some ValueError, G)"
  by (simp add: include_statement_def handle_edge_statement_def)

theorem include_statement_edge_error_atomic_witness:
  "include_statement
     (empty_statement\<lparr>st_start := Some ''a'', st_end := Some ''b'',
        st_directive := Some ''subgraph'', st_data := Some ''x, y''\<rparr>)
     (snd (include_statement (empty_statement\<lparr>st_start := Some ''a'', st_end := Some ''b''\<rparr>)
        (init_Graph False)))
   = (Some ValueError,
      snd (include_statement (empty_statement\<lparr>st_start := Some ''a'', st_end := Some ''b''\<rparr>)
        (init_Graph False)))"
  by (rule include_statement_edge_error_atomic [where d = "''subgraph''"])
     (simp_all add: empty_statement_def)

subsection \<open>Edge statements\<close>

text \<open>
  C4, as stated: after a second edge statement for an existing pair the edge's metadata
  is exactly the label and comment of the later statement.  It is not: \<open>add_edge\<close> updates
  the edge's dictionary, so the comment of \<open>c --> a :: A loop!\<close> survives a later plain
  \<open>c --> a\<close>.
\<close>

theorem later_edge_statement_keeps_earlier_comment:
  "edge_data_of
     (g (snd (include_statement (empty_statement\<lparr>st_start := Some ''c'', st_end := Some ''a''\<rparr>)
          (snd (include_statement
             (empty_statement\<lparr>st_start := Some ''c'', st_end := Some ''a'',
                st_comment := Some ''A loop!''\<rparr>)
             (init_Graph False))))))
     ''c'' ''a''
   = Some \<lparr>ed_comment = Some ''A loop!'', ed_label = None, ed_is_subgraph_relation = False\<rparr>"
  by (simp add: builder_defs concrete_defs Let_def)

text \<open>
  C4, amended: an edge statement (plain or \<open>attr\<close>) for the pair \<open>(a, b)\<close> succeeds and
  overwrites exactly the fields it carries with a non-empty text: the comment and the
  label of the later statement replace the earlier ones, a field the later statement
  lacks keeps its earlier value, and so does the subgraph-relation mark.
\<close>

theorem edge_statement_updates_metadata:
  assumes "st_start st = Some a" and "st_end st = Some b"
    and "st_directive st = None \<or> st_directive st = Some ''attr''"
  shows "fst (include_statement st G) = None \<and>
         edge_data_of (g (snd (include_statement st G))) a b =
           Some \<lparr>ed_comment =
                    (if truthy (st_comment st) then st_comment st
                     else (case edge_data_of (g G) a b of
                             None \<Rightarrow> None | Some old \<Rightarrow> ed_comment old)),
                 ed_label =
                    (if truthy (st_label st) then st_label st
                     else (case edge_data_of (g G) a b of
                             None \<Rightarrow> None | Some old \<Rightarrow> ed_label old)),
                 ed_is_subgraph_relation =
                    (case edge_data_of (g G) a b of
                       None \<Rightarrow> False | Some old \<Rightarrow> ed_is_subgraph_relation old)\<rparr>"
  using assms
  by (auto simp add: include_statement_def handle_edge_statement_def Let_def
        edge_data_of_add_edge_same update_edge_data_def no_edge_data_def truthy_def
      split: option.splits)

theorem edge_statement_updates_metadata_witness:
  "fst (include_statement
          (empty_statement\<lparr>st_start := Some ''c'', st_end := Some ''a'',
             st_label := Some ''Again''\<rparr>)
          (snd (include_statement
             (empty_statement\<lparr>st_start := Some ''c'', st_end := Some ''a'',
                st_comment := Some ''A loop!'', st_label := Some ''Once''\<rparr>)
             (init_Graph False)))) = None \<and>
   edge_data_of
     (g (snd (include_statement
          (empty_statement\<lparr>st_start := Some ''c'', st_end := Some ''a'',
             st_label := Some ''Again''\<rparr>)
          (snd (include_statement
             (empty_statement\<lparr>st_start := Some ''c'', st_end := Some ''a'',
                st_comment := Some ''A loop!'', st_label := Some ''Once''\<rparr>)
             (init_Graph False))))))
     ''c'' ''a''
   = Some \<lparr>ed_comment = Some ''A loop!'', ed_label = Some ''Again'',
           ed_is_subgraph_relation = False\<rparr>"
  using edge_statement_updates_metadata
    [of "empty_statement\<lparr>st_start := Some ''c'', st_end := Some ''a'',
           st_label := Some ''Again''\<rparr>" "''c''" "''a''"
        "snd (include_statement
             (empty_statement\<lparr>st_start := Some ''c'', st_end := Some ''a'',
                st_comment := Some ''A loop!'', st_label := Some ''Once''\<rparr>)
             (init_Graph False))"]
  by (simp add: builder_defs concrete_defs Let_def)

text \<open>
  C6: an \<open>attr\<close> statement on the edge \<open>(a, b)\<close> with non-empty data succeeds, and
  \<open>edge_attrs[a][b]\<close> afterwards is what it was before followed by the fragments of the
  stripped data split on \<open>;\<close>; the lists of all other pairs are as before.  Earlier
  fragments are therefore never discarded.
\<close>

theorem edge_attr_statement_appends_fragments:
  assumes "st_start st = Some a" and "st_end st = Some b"
    and "st_directive st = Some ''attr''" and "st_data st = Some d" and "d \<noteq> []"
  shows "fst (include_statement st G) = None \<and>
         edge_attrs_get (edge_attrs (snd (include_statement st G))) a b =
           edge_attrs_get (edge_attrs G) a b @ split (CHR '';'') (strip d) \<and>
         (\<forall>a' b'. (a', b') \<noteq> (a, b) \<longrightarrow>
            edge_attrs_get (edge_attrs (snd (include_statement st G))) a' b' =
            edge_attrs_get (edge_attrs G) a' b')"
  using assms
  by (simp add: include_statement_def handle_edge_statement_def Let_def
        edge_attrs_get_put_same edge_attrs_get_put_other)

theorem edge_attr_statement_appends_fragments_witness:
  "fst (include_statement
     (empty_statement\<lparr>st_start := Some ''container'', st_end := Some ''host.root'',
        st_directive := Some ''attr'', st_data := Some ''fill=red; style=dashed; ''\<rparr>)
     ((init_Graph False)\<lparr>edge_attrs := [(''container'', [(''host.root'', [''color=blue''])])]\<rparr>)) = None \<and>
   edge_attrs_get (edge_attrs (snd (include_statement
     (empty_statement\<lparr>st_start := Some ''container'', st_end := Some ''host.root'',
        st_directive := Some ''attr'', st_data := Some ''fill=red; style=dashed; ''\<rparr>)
     ((init_Graph False)\<lparr>edge_attrs := [(''container'', [(''host.root'', [''color=blue''])])]\<rparr>))))
     ''container'' ''host.root''
   = [''color=blue'', ''fill=red'', '' style=dashed'', '''']"
  using edge_attr_statement_appends_fragments
    [of "empty_statement\<lparr>st_start := Some ''container'', st_end := Some ''host.root'',
        st_directive := Some ''attr'', st_data := Some ''fill=red; style=dashed; ''\<rparr>"
      "''container''" "''host.root''" "''fill=red; style=dashed; ''"
      "(init_Graph False)\<lparr>edge_attrs := [(''container'', [(''host.root'', [''color=blue''])])]\<rparr>"]
  by (simp add: empty_statement_def init_Graph_def edge_attrs_get_def split_def strip_def isspace_def)

subsection \<open>Node attributes\<close>

text \<open>
  C5: an \<open>attr\<close> statement on a node other than \<open>graph\<close> succeeds and changes nothing but
  \<open>node_attrs[node]\<close>, which becomes the statement's data whatever it was before; when
  the statement carries a comment (of non-empty text) it becomes \<open>tooltip=\<close>, the
  JSON-encoded comment and then the data, with nothing in between.
\<close>

theorem attr_statement_sets_node_attrs:
  assumes "st_start st = None" and "st_directive st = Some ''attr''"
    and "st_node st = Some n" and "n \<noteq> ''graph''" and "st_data st = Some d"
  shows "include_statement st G =
           (None, G\<lparr>node_attrs :=
              AList.update n
                (case st_comment st of
                   None \<Rightarrow> d
                 | Some c \<Rightarrow> if c \<noteq> [] then ''tooltip='' @ json_dumps c @ d else d)
                (node_attrs G)\<rparr>) \<and>
         map_of (node_attrs (snd (include_statement st G))) n =
           Some (case st_comment st of
                   None \<Rightarrow> d
                 | Some c \<Rightarrow> if c \<noteq> [] then ''tooltip='' @ json_dumps c @ d else d)"
  using assms
  by (auto simp add: include_statement_def handle_node_statement_def Let_def update_conv'
      split: option.splits)

theorem attr_statement_sets_node_attrs_witness:
  "include_statement
     (empty_statement\<lparr>st_directive := Some ''attr'', st_node := Some ''b'',
        st_data := Some ''color=red '', st_comment := Some ''Comment''\<rparr>)
     ((init_Graph False)\<lparr>node_attrs := [(''a'', ''shape=box''), (''b'', ''shape=diamond'')]\<rparr>)
   = (None, (init_Graph False)\<lparr>node_attrs :=
        [(''a'', ''shape=box''), (''b'', ''tooltip=\"Comment\"color=red '')]\<rparr>) \<and>
   map_of (node_attrs (snd (include_statement
     (empty_statement\<lparr>st_directive := Some ''attr'', st_node := Some ''b'',
        st_data := Some ''color=red '', st_comment := Some ''Comment''\<rparr>)
     ((init_Graph False)\<lparr>node_attrs := [(''a'', ''shape=box''), (''b'', ''shape=diamond'')]\<rparr>)))) ''b''
   = Some ''tooltip=\"Comment\"color=red ''"
  using attr_statement_sets_node_attrs
    [of "empty_statement\<lparr>st_directive := Some ''attr'', st_node := Some ''b'',
        st_data := Some ''color=red '', st_comment := Some ''Comment''\<rparr>" "''b''" "''color=red ''"
     "(init_Graph False)\<lparr>node_attrs := [(''a'', ''shape=box''), (''b'', ''shape=diamond'')]\<rparr>"]
  by (simp add: empty_statement_def init_Graph_def json_dumps_def json_escape_char_def)

text \<open>
  A comment of empty text, as scanned from a line that ends in \<open>::\<close>, is no comment for
  the builder: \<open>statement.get('comment')\<close> is false for it.
\<close>

lemma attr_statement_with_empty_comment:
  "search_for_statements ''..attr: n: color=red ::''
     = [empty_statement\<lparr>st_directive := Some ''attr'', st_node := Some ''n'',
          st_data := Some ''color=red '', st_comment := Some []\<rparr>] \<and>
   include_statement
     (empty_statement\<lparr>st_directive := Some ''attr'', st_node := Some ''n'',
        st_data := Some ''color=red '', st_comment := Some []\<rparr>)
     (init_Graph False)
   = (None, (init_Graph False)\<lparr>node_attrs := [(''n'', ''color=red '')]\<rparr>)"
  by code_simp

subsection \<open>Every edge of a built Graph is stored once\<close>

lemma distinct_edges_add_edge:
  "distinct (map fst (dg_edges D)) \<Longrightarrow> distinct (map fst (dg_edges (add_edge u v attr D)))"
  by (simp add: add_edge_def Let_def dg_edges_add_node distinct_update)

lemma distinct_edges_add_children:
  "distinct (map fst (dg_edges D))
     \<Longrightarrow> distinct (map fst (dg_edges (add_children subgraph_id children D)))"
  by (induction children arbitrary: D) (simp_all add: distinct_edges_add_edge)

lemma include_statement_distinct_edges:
  assumes "distinct (map fst (dg_edges (g G)))"
  shows "distinct (map fst (dg_edges (g (snd (include_statement st G)))))"
  using assms
  by (auto simp add: builder_defs Let_def distinct_edges_add_edge distinct_edges_add_children
      split: option.splits)

lemma include_statements_distinct_edges:
  "distinct (map fst (dg_edges (g G)))
     \<Longrightarrow> distinct (map fst (dg_edges (g (snd (include_statements sts G)))))"
proof (induction sts arbitrary: G)
  case Nil
  then show ?case by simp
next
  case (Cons st sts)
  obtain r G1 where s: "include_statement st G = (r, G1)" by (cases "include_statement st G")
  from include_statement_distinct_edges [OF Cons.prems, of st] s
  have d: "distinct (map fst (dg_edges (g G1)))" by simp
  show ?case
  proof (cases r)
    case None
    with s Cons.IH [OF d] show ?thesis by simp
  next
    case (Some e)
    with s d show ?thesis by simp
  qed
qed

lemma built_distinct_edges:
  "include_statements sts (init_Graph ie) = (e, G) \<Longrightarrow> distinct (map fst (dg_edges (g G)))"
  using include_statements_distinct_edges [of "init_Graph ie" sts]
  by (simp add: init_Graph_def empty_digraph_def)

subsection \<open>The example graphs are built from their lines\<close>


lemma diamond_built:
  "include_statements
     [edge_statement ''a'' ''b'', edge_statement ''a'' ''c'',
      edge_statement ''b'' ''d'', edge_statement ''c'' ''d''] (init_Graph False)
     = (None, diamond)"
  by code_simp

lemma two_parents_built:
  "include_statements
     [empty_statement\<lparr>st_directive := Some ''subgraph'', st_node := Some ''p1'',
        st_data := Some ''c''\<rparr>,
      empty_statement\<lparr>st_directive := Some ''subgraph'', st_node := Some ''p2'',
        st_data := Some ''c''\<rparr>] (init_Graph False)
     = (None, two_parents)"
  by code_simp

section \<open>Properties of the graph algorithms\<close>

lemma nb_rel_successors: "nb_rel (successors D) = edge_rel D"
  by (auto simp add: nb_rel_def successors_def edge_rel_def image_iff) force

lemma nb_rel_predecessors: "nb_rel (predecessors D) = (edge_rel D)\<inverse>"
  by (auto simp add: nb_rel_def predecessors_def edge_rel_def image_iff) force

lemma UN_atMost_shift:
  fixes A :: "nat \<Rightarrow> 'b set"
  shows "(\<Union>j\<in>{..k}. A j) \<union> (\<Union>j\<in>{..k}. A (Suc j)) = (\<Union>j\<in>{..Suc k}. A j)"
proof (intro set_eqI iffI)
  fix x assume "x \<in> (\<Union>j\<in>{..k}. A j) \<union> (\<Union>j\<in>{..k}. A (Suc j))"
  then consider j where "j \<le> k" "x \<in> A j" | j where "j \<le> k" "x \<in> A (Suc j)"
    by auto
  then show "x \<in> (\<Union>j\<in>{..Suc k}. A j)"
  proof cases
    case 1
    then have "j \<in> {..Suc k}" by simp
    with 1 show ?thesis by blast
  next
    case 2
    then have "Suc j \<in> {..Suc k}" by simp
    with 2 show ?thesis by blast
  qed
next
  fix x assume "x \<in> (\<Union>j\<in>{..Suc k}. A j)"
  then obtain j where j: "j \<le> Suc k" "x \<in> A j" by auto
  show "x \<in> (\<Union>j\<in>{..k}. A j) \<union> (\<Union>j\<in>{..k}. A (Suc j))"
  proof (cases j)
    case 0
    with j have "x \<in> A 0" "0 \<in> {..k}" by simp_all
    then show ?thesis by blast
  next
    case (Suc i)
    with j have "x \<in> A (Suc i)" "i \<in> {..k}" by simp_all
    then show ?thesis by blast
  qed
qed

lemma reach_iter_set:
  "set (reach_iter nb k S) = (\<Union>j\<in>{..k}. (nb_rel nb ^^ j) `` set S)"
proof (induction k arbitrary: S)
  case 0
  show ?case by simp
next
  case (Suc k)
  let ?R = "nb_rel nb"
  have step: "set (first_occurrences (S @ concat (map nb S))) = set S \<union> ?R `` set S"
    by (auto simp add: nb_rel_def first_occurrences_def)
  have pow: "(?R ^^ j) `` (?R `` set S) = (?R ^^ Suc j) `` set S" for j
  proof -
    have "(?R ^^ j) `` (?R `` set S) = (?R O ?R ^^ j) `` set S"
      by (simp add: relcomp_Image)
    also have "?R O ?R ^^ j = ?R ^^ Suc j"
      by (simp add: relpow_commute)
    finally show ?thesis .
  qed
  have "set (reach_iter nb (Suc k) S)
          = (\<Union>j\<in>{..k}. (?R ^^ j) `` (set S \<union> ?R `` set S))"
    by (simp only: reach_iter.simps Suc.IH step)
  also have "\<dots> = (\<Union>j\<in>{..k}. (?R ^^ j) `` set S) \<union> (\<Union>j\<in>{..k}. (?R ^^ Suc j) `` set S)"
    by (simp add: Image_Un pow UN_Un_distrib)
  also have "\<dots> = (\<Union>j\<in>{..Suc k}. (?R ^^ j) `` set S)"
    by (rule UN_atMost_shift [of "\<lambda>j. (?R ^^ j) `` set S"])
  finally show ?case .
qed

lemma bounded_relpow_rtrancl:
  assumes "finite R" and "card R \<le> k"
  shows "(\<Union>j\<in>{..k}. R ^^ j) = R\<^sup>*"
proof
  show "(\<Union>j\<in>{..k}. R ^^ j) \<subseteq> R\<^sup>*"
    using relpow_imp_rtrancl by fastforce
  have "R\<^sup>* = (\<Union>n\<in>{n. n \<le> card R}. R ^^ n)"
    using assms(1) by (rule rtrancl_finite_eq_relpow)
  also have "\<dots> \<subseteq> (\<Union>j\<in>{..k}. R ^^ j)"
    using assms(2) by fastforce
  finally show "R\<^sup>* \<subseteq> (\<Union>j\<in>{..k}. R ^^ j)" .
qed

lemma reach_iter_rtrancl:
  assumes "finite (nb_rel nb)" and "card (nb_rel nb) \<le> k"
  shows "set (reach_iter nb k S) = (nb_rel nb)\<^sup>* `` set S"
proof -
  have "set (reach_iter nb k S) = (\<Union>j\<in>{..k}. nb_rel nb ^^ j) `` set S"
    by (simp add: reach_iter_set Image_UN) blast
  then show ?thesis
    by (simp add: bounded_relpow_rtrancl [OF assms])
qed

lemma finite_edge_rel: "finite (edge_rel D)"
  by (simp add: edge_rel_def)

lemma card_edge_rel: "card (edge_rel D) \<le> length (dg_edges D)"
  unfolding edge_rel_def by (metis card_length length_map)

lemma distinct_reach_iter: "distinct S \<Longrightarrow> distinct (reach_iter nb k S)"
  by (induction k arbitrary: S) (simp_all add: first_occurrences_def)

lemma set_bfs_order: "set (bfs_order D s) = (edge_rel D)\<^sup>* `` {s}"
  using reach_iter_rtrancl [of "successors D" "length (dg_edges D)" "[s]"]
  by (simp add: bfs_order_def nb_rel_successors finite_edge_rel card_edge_rel)

lemma distinct_bfs_order: "distinct (bfs_order D s)"
  by (simp add: bfs_order_def distinct_reach_iter)

lemma set_descendants:
  "has_node D s \<Longrightarrow> \<exists>ns. descendants D s = Inr ns \<and> distinct ns \<and>
     set ns = {n. n \<noteq> s \<and> (s, n) \<in> (edge_rel D)\<^sup>+}"
  using reach_iter_rtrancl [of "successors D" "length (dg_edges D)" "[s]"]
  by (auto simp add: descendants_def nb_rel_successors finite_edge_rel card_edge_rel
      distinct_reach_iter rtrancl_eq_or_trancl)

lemma set_ancestors:
  "has_node D s \<Longrightarrow> \<exists>ns. ancestors D s = Inr ns \<and> distinct ns \<and>
     set ns = {n. n \<noteq> s \<and> (n, s) \<in> (edge_rel D)\<^sup>+}"
  using reach_iter_rtrancl [of "predecessors D" "length (dg_edges D)" "[s]"]
  by (auto simp add: ancestors_def nb_rel_predecessors finite_edge_rel card_edge_rel
      distinct_reach_iter rtrancl_eq_or_trancl rtrancl_converse)

lemma concat_replicate_shift: "concat (replicate c x) @ x = x @ concat (replicate c x)"
  by (induction c) simp_all

lemma node_attrs_get_update:
  "node_attrs_get (AList.update m v na) n = (if n = m then v else node_attrs_get na n)"
  by (simp add: node_attrs_get_def update_conv')

lemma map_of_prepend_style:
  "map_of (prepend_style a ns na) n =
     (if count_list ns n = 0 then map_of na n
      else Some (concat (replicate (count_list ns n) (a @ '';'')) @ node_attrs_get na n))"
proof (induction ns arbitrary: na)
  case Nil
  show ?case by simp
next
  case (Cons m ns)
  let ?na = "AList.update m (a @ '';'' @ node_attrs_get na m) na"
  have "map_of (prepend_style a (m # ns) na) n = map_of (prepend_style a ns ?na) n"
    by simp
  also have "\<dots> =
     (if count_list ns n = 0 then map_of ?na n
      else Some (concat (replicate (count_list ns n) (a @ '';'')) @ node_attrs_get ?na n))"
    by (rule Cons.IH)
  also have "\<dots> =
     (if count_list (m # ns) n = 0 then map_of na n
      else Some (concat (replicate (count_list (m # ns) n) (a @ '';'')) @ node_attrs_get na n))"
    using concat_replicate_shift [of "count_list ns m" "a @ '';''"]
    by (auto simp add: node_attrs_get_update update_conv')
  finally show ?case .
qed

lemma set_successors: "t \<in> set (successors D u) \<longleftrightarrow> (u, t) \<in> edge_rel D"
  using nb_rel_successors [of D] by (auto simp add: nb_rel_def)

lemma set_predecessors: "set (predecessors D t) = {u. (u, t) \<in> edge_rel D}"
  using nb_rel_predecessors [of D] by (auto simp add: nb_rel_def)

lemma is_walk_snoc:
  "is_walk D s t (q @ [x]) \<longleftrightarrow> x = t \<and> (if q = [] then s = t else is_walk D s (last q) q \<and> (last q, t) \<in> edge_rel D)"
  by (auto simp add: is_walk_def successively_append_iff)

lemma paths_of_length_relpow:
  "paths_of_length D (bfs_order D s) s k t \<noteq> [] \<longleftrightarrow> (s, t) \<in> edge_rel D ^^ k"
proof (induction k arbitrary: t)
  case 0
  show ?case by auto
next
  case (Suc k)
  have "paths_of_length D (bfs_order D s) s (Suc k) t \<noteq> [] \<longleftrightarrow>
          (\<exists>u. u \<in> set (bfs_order D s) \<and> t \<in> set (successors D u) \<and>
               paths_of_length D (bfs_order D s) s k u \<noteq> [])"
    by auto
  also have "\<dots> \<longleftrightarrow> (\<exists>u. (s, u) \<in> (edge_rel D)\<^sup>* \<and> (s, u) \<in> edge_rel D ^^ k \<and> (u, t) \<in> edge_rel D)"
    by (auto simp add: Suc.IH set_successors set_bfs_order)
  also have "\<dots> \<longleftrightarrow> (\<exists>u. (s, u) \<in> edge_rel D ^^ k \<and> (u, t) \<in> edge_rel D)"
    using relpow_imp_rtrancl by blast
  also have "\<dots> \<longleftrightarrow> (s, t) \<in> edge_rel D ^^ Suc k"
    by auto
  finally show ?case .
qed

lemma set_paths_of_length:
  "set (paths_of_length D (bfs_order D s) s k t) = {p. is_walk D s t p \<and> length p = Suc k}"
proof (induction k arbitrary: t)
  case 0
  show ?case
    by (auto simp add: is_walk_def length_Suc_conv)
next
  case (Suc k)
  show ?case
  proof (intro set_eqI iffI)
    fix p assume "p \<in> set (paths_of_length D (bfs_order D s) s (Suc k) t)"
    then obtain u q where uq: "(u, t) \<in> edge_rel D"
        "q \<in> set (paths_of_length D (bfs_order D s) s k u)" "p = q @ [t]"
      by (auto simp add: set_successors)
    from uq(2) have q: "is_walk D s u q" "length q = Suc k" by (simp_all add: Suc.IH)
    then have "q \<noteq> []" "last q = u" by (auto simp add: is_walk_def)
    with q uq show "p \<in> {p. is_walk D s t p \<and> length p = Suc (Suc k)}"
      by (simp add: is_walk_snoc)
  next
    fix p assume "p \<in> {p. is_walk D s t p \<and> length p = Suc (Suc k)}"
    then have p: "is_walk D s t p" "length p = Suc (Suc k)" by simp_all
    then obtain q x where qx: "p = q @ [x]" by (cases p rule: rev_cases) auto
    with p have q: "x = t" "q \<noteq> []" "length q = Suc k" "is_walk D s (last q) q" "(last q, t) \<in> edge_rel D"
      by (auto simp add: is_walk_snoc split: if_splits)
    then have in_q: "q \<in> set (paths_of_length D (bfs_order D s) s k (last q))"
      by (simp add: Suc.IH)
    then have "paths_of_length D (bfs_order D s) s k (last q) \<noteq> []" by auto
    then have "(s, last q) \<in> (edge_rel D)\<^sup>*"
      unfolding paths_of_length_relpow by (rule relpow_imp_rtrancl)
    with q(5) have "last q \<in> set (filter (\<lambda>u. t \<in> set (successors D u)) (bfs_order D s))"
      by (simp add: set_successors set_bfs_order)
    with in_q qx q(1) show "p \<in> set (paths_of_length D (bfs_order D s) s (Suc k) t)"
      by auto
  qed
qed

lemma distinct_concat_map:
  assumes "distinct us"
    and "\<And>u. u \<in> set us \<Longrightarrow> distinct (f u)"
    and "\<And>u v. u \<in> set us \<Longrightarrow> v \<in> set us \<Longrightarrow> u \<noteq> v \<Longrightarrow> set (f u) \<inter> set (f v) = {}"
  shows "distinct (concat (map f us))"
  using assms by (induction us) auto

lemma distinct_paths_of_length:
  "distinct (paths_of_length D (bfs_order D s) s k t)"
proof (induction k arbitrary: t)
  case 0
  show ?case by simp
next
  case (Suc k)
  show ?case
    unfolding paths_of_length.simps
  proof (rule distinct_concat_map)
    show "distinct (filter (\<lambda>u. t \<in> set (successors D u)) (bfs_order D s))"
      by (simp add: distinct_bfs_order)
  next
    fix u show "distinct (map (\<lambda>p. p @ [t]) (paths_of_length D (bfs_order D s) s k u))"
      by (simp add: distinct_map Suc.IH inj_on_def)
  next
    fix u v :: string assume "u \<noteq> v"
    then show "set (map (\<lambda>p. p @ [t]) (paths_of_length D (bfs_order D s) s k u))
                 \<inter> set (map (\<lambda>p. p @ [t]) (paths_of_length D (bfs_order D s) s k v)) = {}"
      by (auto simp add: set_paths_of_length is_walk_def)
  qed
qed

lemma first_paths_upt:
  "first_paths D ord s t [i ..< n] = Some ps \<longleftrightarrow>
     (\<exists>k. i \<le> k \<and> k < n \<and> ps = paths_of_length D ord s k t \<and> ps \<noteq> [] \<and>
          (\<forall>j. i \<le> j \<and> j < k \<longrightarrow> paths_of_length D ord s j t = []))"
proof (induction "n - i" arbitrary: i)
  case 0
  then show ?case by simp
next
  case (Suc m)
  then have lt: "i < n" and m: "m = n - Suc i" by simp_all
  show ?case
  proof (cases "paths_of_length D ord s i t = []")
    case True
    have "first_paths D ord s t [i ..< n] = first_paths D ord s t [Suc i ..< n]"
      using lt True by (simp add: upt_rec)
    also have "\<dots> = Some ps \<longleftrightarrow>
       (\<exists>k. Suc i \<le> k \<and> k < n \<and> ps = paths_of_length D ord s k t \<and> ps \<noteq> [] \<and>
          (\<forall>j. Suc i \<le> j \<and> j < k \<longrightarrow> paths_of_length D ord s j t = []))"
      by (rule Suc.hyps(1) [OF m])
    also have "\<dots> \<longleftrightarrow>
       (\<exists>k. i \<le> k \<and> k < n \<and> ps = paths_of_length D ord s k t \<and> ps \<noteq> [] \<and>
          (\<forall>j. i \<le> j \<and> j < k \<longrightarrow> paths_of_length D ord s j t = []))"
      using True by (metis Suc_leD Suc_le_eq le_neq_implies_less not_less_eq_eq)
    finally show ?thesis .
  next
    case False
    have "first_paths D ord s t [i ..< n] = Some (paths_of_length D ord s i t)"
      using lt False by (simp add: upt_rec)
    moreover have
      "(\<exists>k. i \<le> k \<and> k < n \<and> ps = paths_of_length D ord s k t \<and> ps \<noteq> [] \<and>
          (\<forall>j. i \<le> j \<and> j < k \<longrightarrow> paths_of_length D ord s j t = []))
       \<longleftrightarrow> ps = paths_of_length D ord s i t"
      using lt False by (metis le_neq_implies_less order_refl not_less_iff_gr_or_eq)
    ultimately show ?thesis by auto
  qed
qed

lemma first_paths_None:
  "first_paths D ord s t ks = None \<longleftrightarrow> (\<forall>k\<in>set ks. paths_of_length D ord s k t = [])"
  by (induction ks) auto

lemma walk_shorten:
  assumes "is_walk D s t p" and "\<not> distinct p"
  shows "\<exists>q. is_walk D s t q \<and> length q < length p"
proof -
  from assms(2) obtain xs ys zs y where p: "p = xs @ [y] @ ys @ [y] @ zs"
    using not_distinct_decomp by blast
  have "is_walk D s t (xs @ [y] @ zs)"
    using assms(1) unfolding p is_walk_def
    by (auto simp add: successively_append_iff hd_append successively_Cons split: if_splits)
  then show ?thesis unfolding p by (intro exI [of _ "xs @ [y] @ zs"]) simp
qed

lemma shortest_path_distinct: "is_shortest_path D s t p \<Longrightarrow> distinct p"
  using walk_shorten unfolding is_shortest_path_def by (metis not_less)

lemma walk_in_paths_of_length:
  "is_walk D s t p \<Longrightarrow> p \<in> set (paths_of_length D (bfs_order D s) s (length p - 1) t)"
  by (simp add: set_paths_of_length is_walk_def)

lemma all_shortest_paths_found:
  assumes "has_node D s" and "(s, t) \<in> (edge_rel D)\<^sup>*"
  shows "\<exists>ps. all_shortest_paths D s t = Inr ps \<and> ps \<noteq> [] \<and>
              set ps = {p. is_shortest_path D s t p}"
proof -
  from assms(2) obtain k where k: "k \<le> card (edge_rel D)" "(s, t) \<in> edge_rel D ^^ k"
    using rtrancl_finite_eq_relpow [OF finite_edge_rel, of D] by auto
  moreover have "k < Suc (length (dg_edges D))"
    using k(1) card_edge_rel [of D] by linarith
  ultimately have "k \<in> set [0 ..< Suc (length (dg_edges D))]" "paths_of_length D (bfs_order D s) s k t \<noteq> []"
    by (simp_all add: paths_of_length_relpow del: upt_Suc)
  then have "first_paths D (bfs_order D s) s t [0 ..< Suc (length (dg_edges D))] \<noteq> None"
    by (auto simp add: first_paths_None simp del: upt_Suc)
  then obtain ps where ps: "first_paths D (bfs_order D s) s t [0 ..< Suc (length (dg_edges D))] = Some ps"
    by blast
  then obtain m where m: "ps = paths_of_length D (bfs_order D s) s m t" "ps \<noteq> []"
      "\<forall>j. j < m \<longrightarrow> paths_of_length D (bfs_order D s) s j t = []"
    unfolding first_paths_upt by auto
  have least: "Suc m \<le> length q" if "is_walk D s t q" for q
  proof (rule ccontr)
    assume "\<not> Suc m \<le> length q"
    moreover from that have "q \<noteq> []" by (simp add: is_walk_def)
    ultimately have "length q - 1 < m" by (cases q) auto
    with m(3) have "paths_of_length D (bfs_order D s) s (length q - 1) t = []" by blast
    with walk_in_paths_of_length [OF that] show False by simp
  qed
  from m(2) obtain r where "r \<in> set ps" by (cases ps) auto
  then have r: "is_walk D s t r" "length r = Suc m"
    by (simp_all add: m(1) set_paths_of_length)
  have "set ps = {p. is_shortest_path D s t p}"
  proof (intro set_eqI iffI)
    fix p assume "p \<in> set ps"
    then have "is_walk D s t p" "length p = Suc m" by (simp_all add: m(1) set_paths_of_length)
    with least show "p \<in> {p. is_shortest_path D s t p}"
      by (simp add: is_shortest_path_def)
  next
    fix p assume "p \<in> {p. is_shortest_path D s t p}"
    then have p: "is_walk D s t p" "length p \<le> length r"
      using r(1) by (simp_all add: is_shortest_path_def)
    with least [OF p(1)] r(2) have "length p = Suc m" by simp
    with p(1) show "p \<in> set ps" by (simp add: m(1) set_paths_of_length)
  qed
  with ps m(2) assms(1) show ?thesis
    by (simp add: all_shortest_paths_def)
qed

lemma all_shortest_paths_distinct:
  "all_shortest_paths D s t = Inr ps \<Longrightarrow> distinct ps"
  by (auto simp add: all_shortest_paths_def first_paths_upt distinct_paths_of_length
      simp del: upt_Suc split: if_splits option.splits)

lemma all_shortest_paths_none:
  assumes "has_node D s" and "(s, t) \<notin> (edge_rel D)\<^sup>*"
  shows "all_shortest_paths D s t = Inl NetworkXNoPath"
proof -
  have "paths_of_length D (bfs_order D s) s k t = []" for k
    using assms(2) paths_of_length_relpow [of D s k t] relpow_imp_rtrancl by blast
  then have "first_paths D (bfs_order D s) s t [0 ..< Suc (length (dg_edges D))] = None"
    by (simp add: first_paths_None)
  with assms(1) show ?thesis by (simp add: all_shortest_paths_def)
qed

text \<open>
  The paths come in the order of the search: with the edges \<open>a -> c\<close>, \<open>a -> b\<close>,
  \<open>b -> d\<close>, \<open>c -> d\<close> added in this order the search from \<open>a\<close> visits \<open>c\<close> before \<open>b\<close>, and
  the path through \<open>c\<close> is listed first, although \<open>b -> d\<close> was added before \<open>c -> d\<close>.
\<close>

lemma all_shortest_paths_in_search_order:
  "all_shortest_paths
     (add_edge ''c'' ''d'' no_edge_data (add_edge ''b'' ''d'' no_edge_data
        (add_edge ''a'' ''b'' no_edge_data (add_edge ''a'' ''c'' no_edge_data empty_digraph))))
     ''a'' ''d''
   = Inr [[''a'', ''c'', ''d''], [''a'', ''b'', ''d'']]"
  by code_simp

lemma count_list_distinct:
  "distinct xs \<Longrightarrow> count_list xs x = (if x \<in> set xs then 1 else 0)"
  by (induction xs) auto

lemma count_list_concat_distinct:
  "(\<And>p. p \<in> set ps \<Longrightarrow> distinct p) \<Longrightarrow>
     count_list (concat ps) n = length (filter (\<lambda>p. n \<in> set p) ps)"
  by (induction ps) (simp_all add: count_list_distinct)


section \<open>Properties of the style resolution\<close>

lemma map_of_prepend_style_distinct:
  "distinct ns \<Longrightarrow>
   map_of (prepend_style a ns na) n =
     (if n \<in> set ns then Some (a @ '';'' @ node_attrs_get na n) else map_of na n)"
  by (simp add: map_of_prepend_style count_list_distinct count_list_0_iff)

lemma node_style_table:
  "node_style ''highlight'' = ''style=\"filled\"; fillcolor=\"pink\"''"
  "node_style ''pink'' = ''style=\"filled\"; fillcolor=\"pink\"''"
  "node_style ''green'' = ''style=\"filled\"; fillcolor=\"green\"''"
  by (simp_all add: node_style_def NODE_STYLES_def)

lemma node_style_other:
  "attrs \<noteq> ''highlight'' \<Longrightarrow> attrs \<noteq> ''pink'' \<Longrightarrow> attrs \<noteq> ''green'' \<Longrightarrow> node_style attrs = attrs"
  by (simp add: node_style_def NODE_STYLES_def)

lemma node_style_preset: "node_style attrs = preset_style attrs"
  by (simp add: node_style_def NODE_STYLES_def preset_style_def)

lemma prepended_refl: "(\<And>n. pre n = []) \<Longrightarrow> prepended pre na na"
  by (simp add: prepended_def)

lemma prepended_trans:
  "prepended p1 na na1 \<Longrightarrow> prepended p2 na1 na2 \<Longrightarrow> prepended (\<lambda>n. p2 n @ p1 n) na na2"
  by (auto simp add: prepended_def)

lemma prepended_cong: "prepended p na na' \<Longrightarrow> (\<And>n. p n = q n) \<Longrightarrow> prepended q na na'"
  by (simp add: prepended_def)

lemma prepended_prepend_style:
  "prepended (\<lambda>n. concat (replicate (count_list ns n) (a @ '';''))) na (prepend_style a ns na)"
  by (auto simp add: prepended_def map_of_prepend_style node_attrs_get_def)

lemma ancestor_style_prepended:
  assumes "match_node_spec spec = Some t" and "has_node (g G) (fst t)"
  shows "\<exists>na'. ancestor_style spec G = (None, G\<lparr>node_attrs := na'\<rparr>) \<and>
               prepended (\<lambda>n. ancestor_prefix (g G) n t) (node_attrs G) na'"
proof -
  obtain node_id attrs where t: "t = (node_id, attrs)" by (cases t)
  from set_ancestors [of "g G" node_id] assms(2) t obtain ns where ns:
    "ancestors (g G) node_id = Inr ns" "distinct ns"
    "set ns = {n. n \<noteq> node_id \<and> (n, node_id) \<in> (edge_rel (g G))\<^sup>+}"
    by auto
  have "ancestor_style spec G =
          (None, G\<lparr>node_attrs := prepend_style (node_style attrs) ns (node_attrs G)\<rparr>)"
    using assms(1) by (simp add: ancestor_style_def t ns(1))
  moreover have "prepended (\<lambda>n. ancestor_prefix (g G) n t) (node_attrs G)
                   (prepend_style (node_style attrs) ns (node_attrs G))"
    by (rule prepended_cong [OF prepended_prepend_style])
       (simp add: count_list_distinct [OF ns(2)] ns(3) ancestor_prefix_def t node_style_preset)
  ultimately show ?thesis by blast
qed

lemma descendant_style_prepended:
  assumes "match_node_spec spec = Some t" and "has_node (g G) (fst t)"
  shows "\<exists>na'. descendant_style spec G = (None, G\<lparr>node_attrs := na'\<rparr>) \<and>
               prepended (\<lambda>n. descendant_prefix (g G) n t) (node_attrs G) na'"
proof -
  obtain node_id attrs where t: "t = (node_id, attrs)" by (cases t)
  from set_descendants [of "g G" node_id] assms(2) t obtain ns where ns:
    "descendants (g G) node_id = Inr ns" "distinct ns"
    "set ns = {n. n \<noteq> node_id \<and> (node_id, n) \<in> (edge_rel (g G))\<^sup>+}"
    by auto
  have "descendant_style spec G =
          (None, G\<lparr>node_attrs := prepend_style (node_style attrs) ns (node_attrs G)\<rparr>)"
    using assms(1) by (simp add: descendant_style_def t ns(1))
  moreover have "prepended (\<lambda>n. descendant_prefix (g G) n t) (node_attrs G)
                   (prepend_style (node_style attrs) ns (node_attrs G))"
    by (rule prepended_cong [OF prepended_prepend_style])
       (simp add: count_list_distinct [OF ns(2)] ns(3) descendant_prefix_def t node_style_preset)
  ultimately show ?thesis by blast
qed

lemma card_shortest_paths_through:
  assumes "all_shortest_paths D s t = Inr ps" and "has_node D s" and "(s, t) \<in> (edge_rel D)\<^sup>*"
  shows "card {p. is_shortest_path D s t p \<and> n \<in> set p} = length (filter (\<lambda>p. n \<in> set p) ps)"
    and "count_list (concat ps) n = length (filter (\<lambda>p. n \<in> set p) ps)"
proof -
  from all_shortest_paths_found [OF assms(2,3)] assms(1)
  have ps: "set ps = {p. is_shortest_path D s t p}" by simp
  have dps: "distinct ps" by (rule all_shortest_paths_distinct [OF assms(1)])
  have "{p. is_shortest_path D s t p \<and> n \<in> set p} = set (filter (\<lambda>p. n \<in> set p) ps)"
    using ps by auto
  moreover have "card (set (filter (\<lambda>p. n \<in> set p) ps)) = length (filter (\<lambda>p. n \<in> set p) ps)"
    using dps by (intro distinct_card) simp
  ultimately show "card {p. is_shortest_path D s t p \<and> n \<in> set p}
                     = length (filter (\<lambda>p. n \<in> set p) ps)"
    by (simp only:)
  have "distinct p" if "p \<in> set ps" for p
    using that ps shortest_path_distinct by blast
  then show "count_list (concat ps) n = length (filter (\<lambda>p. n \<in> set p) ps)"
    by (rule count_list_concat_distinct)
qed

lemma path_style_prepended:
  assumes "match_path_spec spec = Some t" and "has_node (g G) (fst t)"
    and "(fst t, fst (snd t)) \<in> (edge_rel (g G))\<^sup>*"
  shows "\<exists>na'. path_style spec G = (None, G\<lparr>node_attrs := na'\<rparr>) \<and>
               prepended (\<lambda>n. path_prefix (g G) n t) (node_attrs G) na'"
proof -
  obtain start end' attrs where t: "t = (start, end', attrs)" by (cases t)
  from all_shortest_paths_found [of "g G" start end'] assms(2,3) t obtain ps where ps:
    "all_shortest_paths (g G) start end' = Inr ps"
    by auto
  from assms(2,3) t have h: "has_node (g G) start" "(start, end') \<in> (edge_rel (g G))\<^sup>*"
    by simp_all
  have "path_style spec G =
          (None, G\<lparr>node_attrs := prepend_style (node_style attrs) (concat ps) (node_attrs G)\<rparr>)"
    using assms(1) by (simp add: path_style_def t ps)
  moreover have "prepended (\<lambda>n. path_prefix (g G) n t) (node_attrs G)
                   (prepend_style (node_style attrs) (concat ps) (node_attrs G))"
    by (rule prepended_cong [OF prepended_prepend_style])
       (simp add: card_shortest_paths_through [OF ps h] path_prefix_def t node_style_preset)
  ultimately show ?thesis by blast
qed

lemma for_each_prepended:
  assumes "\<And>G. g G = D \<Longrightarrow> list_all2 (\<lambda>x t. \<exists>na'. body x G = (None, G\<lparr>node_attrs := na'\<rparr>) \<and>
                 prepended (\<lambda>n. P n t) (node_attrs G) na') xs ts"
    and "g G = D"
  shows "\<exists>na'. for_each body xs G = (None, G\<lparr>node_attrs := na'\<rparr>) \<and>
               prepended (\<lambda>n. concat (rev (map (P n) ts))) (node_attrs G) na'"
  using assms
proof (induction xs arbitrary: ts G)
  case Nil
  from Nil.prems(1) [OF Nil.prems(2)] have "ts = []" by simp
  then show ?case
    by (auto intro!: exI [of _ "node_attrs G"] prepended_refl)
next
  case (Cons x xs)
  from Cons.prems(1) [OF Cons.prems(2)] obtain t ts' where ts: "ts = t # ts'"
    by (cases ts) auto
  from Cons.prems(1) [OF Cons.prems(2)] ts obtain na1 where
    b: "body x G = (None, G\<lparr>node_attrs := na1\<rparr>)"
    and p1: "prepended (\<lambda>n. P n t) (node_attrs G) na1"
    by auto
  let ?G1 = "G\<lparr>node_attrs := na1\<rparr>"
  have g1: "g ?G1 = D" using Cons.prems(2) by simp
  have rest: "list_all2 (\<lambda>x t. \<exists>na'. body x G' = (None, G'\<lparr>node_attrs := na'\<rparr>) \<and>
                 prepended (\<lambda>n. P n t) (node_attrs G') na') xs ts'" if "g G' = D" for G'
    using Cons.prems(1) [OF that] ts by simp
  from Cons.IH [OF rest g1] obtain na2 where
    f: "for_each body xs ?G1 = (None, ?G1\<lparr>node_attrs := na2\<rparr>)"
    and p2: "prepended (\<lambda>n. concat (rev (map (P n) ts'))) na1 na2"
    by auto
  have "for_each body (x # xs) G = (None, G\<lparr>node_attrs := na2\<rparr>)"
    using b f by simp
  moreover have "prepended (\<lambda>n. concat (rev (map (P n) ts))) (node_attrs G) na2"
    by (rule prepended_cong [OF prepended_trans [OF p1 p2]]) (simp add: ts)
  ultimately show ?case by blast
qed


lemma map_Some_list_all2:
  "map f xs = map Some ts \<Longrightarrow> list_all2 (\<lambda>x t. f x = Some t) xs ts"
proof (induction xs arbitrary: ts)
  case Nil
  then show ?case by simp
next
  case (Cons x xs)
  then show ?case by (cases ts) auto
qed

lemma for_each_ancestor_style:
  assumes "map match_node_spec specs = map Some ts"
    and "\<forall>t\<in>set ts. has_node (g G) (fst t)"
  shows "\<exists>na'. for_each ancestor_style specs G = (None, G\<lparr>node_attrs := na'\<rparr>) \<and>
               prepended (\<lambda>n. concat (rev (map (ancestor_prefix (g G) n) ts))) (node_attrs G) na'"
proof (rule for_each_prepended [where D = "g G"])
  fix G' :: Graph assume g': "g G' = g G"
  show "list_all2 (\<lambda>x t. \<exists>na'. ancestor_style x G' = (None, G'\<lparr>node_attrs := na'\<rparr>) \<and>
           prepended (\<lambda>n. ancestor_prefix (g G) n t) (node_attrs G') na') specs ts"
    using map_Some_list_all2 [OF assms(1)]
  proof (rule list.rel_mono_strong)
    fix x t assume "t \<in> set ts" "match_node_spec x = Some t"
    with assms(2) g' ancestor_style_prepended [of x t G']
    show "\<exists>na'. ancestor_style x G' = (None, G'\<lparr>node_attrs := na'\<rparr>) \<and>
           prepended (\<lambda>n. ancestor_prefix (g G) n t) (node_attrs G') na'"
      by simp
  qed
qed simp

lemma for_each_descendant_style:
  assumes "map match_node_spec specs = map Some ts"
    and "\<forall>t\<in>set ts. has_node (g G) (fst t)"
  shows "\<exists>na'. for_each descendant_style specs G = (None, G\<lparr>node_attrs := na'\<rparr>) \<and>
               prepended (\<lambda>n. concat (rev (map (descendant_prefix (g G) n) ts))) (node_attrs G) na'"
proof (rule for_each_prepended [where D = "g G"])
  fix G' :: Graph assume g': "g G' = g G"
  show "list_all2 (\<lambda>x t. \<exists>na'. descendant_style x G' = (None, G'\<lparr>node_attrs := na'\<rparr>) \<and>
           prepended (\<lambda>n. descendant_prefix (g G) n t) (node_attrs G') na') specs ts"
    using map_Some_list_all2 [OF assms(1)]
  proof (rule list.rel_mono_strong)
    fix x t assume "t \<in> set ts" "match_node_spec x = Some t"
    with assms(2) g' descendant_style_prepended [of x t G']
    show "\<exists>na'. descendant_style x G' = (None, G'\<lparr>node_attrs := na'\<rparr>) \<and>
           prepended (\<lambda>n. descendant_prefix (g G) n t) (node_attrs G') na'"
      by simp
  qed
qed simp

lemma for_each_path_style:
  assumes "map match_path_spec specs = map Some ts"
    and "\<forall>t\<in>set ts. has_node (g G) (fst t) \<and> (fst t, fst (snd t)) \<in> (edge_rel (g G))\<^sup>*"
  shows "\<exists>na'. for_each path_style specs G = (None, G\<lparr>node_attrs := na'\<rparr>) \<and>
               prepended (\<lambda>n. concat (rev (map (path_prefix (g G) n) ts))) (node_attrs G) na'"
proof (rule for_each_prepended [where D = "g G"])
  fix G' :: Graph assume g': "g G' = g G"
  show "list_all2 (\<lambda>x t. \<exists>na'. path_style x G' = (None, G'\<lparr>node_attrs := na'\<rparr>) \<and>
           prepended (\<lambda>n. path_prefix (g G) n t) (node_attrs G') na') specs ts"
    using map_Some_list_all2 [OF assms(1)]
  proof (rule list.rel_mono_strong)
    fix x t assume "t \<in> set ts" "match_path_spec x = Some t"
    with assms(2) g' path_style_prepended [of x t G']
    show "\<exists>na'. path_style x G' = (None, G'\<lparr>node_attrs := na'\<rparr>) \<and>
           prepended (\<lambda>n. path_prefix (g G) n t) (node_attrs G') na'"
      by simp
  qed
qed simp

lemma resolve_styles_prepended:
  assumes asc: "map match_node_spec (ascendant_styles G) = map Some asc"
    and desc: "map match_node_spec (descendant_styles G) = map Some desc"
    and pths: "map match_path_spec (path_styles G) = map Some pths"
    and nodes: "\<forall>t\<in>set (asc @ desc). has_node (g G) (fst t)"
    and ends: "\<forall>t\<in>set pths. has_node (g G) (fst t) \<and> (fst t, fst (snd t)) \<in> (edge_rel (g G))\<^sup>*"
  shows "\<exists>na'. resolve_styles G = (None, G\<lparr>node_attrs := na'\<rparr>) \<and>
           prepended (\<lambda>n. concat (rev (map (path_prefix (g G) n) pths))
                         @ concat (rev (map (descendant_prefix (g G) n) desc))
                         @ concat (rev (map (ancestor_prefix (g G) n) asc)))
             (node_attrs G) na'"
proof -
  from nodes have na: "\<forall>t\<in>set asc. has_node (g G) (fst t)"
    and nd: "\<forall>t\<in>set desc. has_node (g G) (fst t)" by simp_all
  from for_each_ancestor_style [OF asc na] obtain na1 where
    l1: "for_each ancestor_style (ascendant_styles G) G = (None, G\<lparr>node_attrs := na1\<rparr>)"
    and p1: "prepended (\<lambda>n. concat (rev (map (ancestor_prefix (g G) n) asc))) (node_attrs G) na1"
    by blast
  let ?G1 = "G\<lparr>node_attrs := na1\<rparr>"
  have "\<exists>na'. for_each descendant_style (descendant_styles G) ?G1
                 = (None, ?G1\<lparr>node_attrs := na'\<rparr>) \<and>
          prepended (\<lambda>n. concat (rev (map (descendant_prefix (g ?G1) n) desc)))
            (node_attrs ?G1) na'"
    by (rule for_each_descendant_style [OF desc]) (simp add: nd)
  then obtain na2 where
    l2: "for_each descendant_style (descendant_styles G) ?G1 = (None, G\<lparr>node_attrs := na2\<rparr>)"
    and p2: "prepended (\<lambda>n. concat (rev (map (descendant_prefix (g G) n) desc))) na1 na2"
    by auto
  let ?G2 = "G\<lparr>node_attrs := na2\<rparr>"
  have "\<exists>na'. for_each path_style (path_styles G) ?G2 = (None, ?G2\<lparr>node_attrs := na'\<rparr>) \<and>
          prepended (\<lambda>n. concat (rev (map (path_prefix (g ?G2) n) pths))) (node_attrs ?G2) na'"
    by (rule for_each_path_style [OF pths]) (simp add: ends)
  then obtain na3 where
    l3: "for_each path_style (path_styles G) ?G2 = (None, G\<lparr>node_attrs := na3\<rparr>)"
    and p3: "prepended (\<lambda>n. concat (rev (map (path_prefix (g G) n) pths))) na2 na3"
    by auto
  have "resolve_styles G = (None, G\<lparr>node_attrs := na3\<rparr>)"
    by (simp add: resolve_styles_def l1 l2 l3)
  moreover have "prepended (\<lambda>n. concat (rev (map (path_prefix (g G) n) pths))
                         @ concat (rev (map (descendant_prefix (g G) n) desc))
                         @ concat (rev (map (ancestor_prefix (g G) n) asc)))
             (node_attrs G) na3"
    by (rule prepended_cong [OF prepended_trans [OF prepended_trans [OF p1 p2] p3]]) simp
  ultimately show ?thesis by blast
qed

lemma render_dot_node_attrs:
  assumes "dg_node (subgraph_relations (g G)) = [] \<or> is_forest (subgraph_relations (g G))"
    and "resolve_styles G = (None, G1)"
  shows "node_attrs (snd (render_dot limit G)) = node_attrs G1"
  using assms by (auto simp add: render_dot_def split: sum.splits option.splits prod.splits)

lemma render_dot_styles:
  assumes "dg_node (subgraph_relations (g G)) = [] \<or> is_forest (subgraph_relations (g G))"
    and "map match_node_spec (ascendant_styles G) = map Some asc"
    and "map match_node_spec (descendant_styles G) = map Some desc"
    and "map match_path_spec (path_styles G) = map Some pths"
    and "\<forall>t\<in>set (asc @ desc). has_node (g G) (fst t)"
    and "\<forall>t\<in>set pths. has_node (g G) (fst t) \<and> (fst t, fst (snd t)) \<in> (edge_rel (g G))\<^sup>*"
  shows "fst (resolve_styles G) = None"
    and "(snd (resolve_styles G))\<lparr>node_attrs := node_attrs G\<rparr> = G"
    and "prepended (\<lambda>n. concat (rev (map (path_prefix (g G) n) pths))
                         @ concat (rev (map (descendant_prefix (g G) n) desc))
                         @ concat (rev (map (ancestor_prefix (g G) n) asc)))
             (node_attrs G) (node_attrs (snd (render_dot limit G)))"
proof -
  from resolve_styles_prepended [OF assms(2-6)] obtain na' where
    r: "resolve_styles G = (None, G\<lparr>node_attrs := na'\<rparr>)"
    and p: "prepended (\<lambda>n. concat (rev (map (path_prefix (g G) n) pths))
                         @ concat (rev (map (descendant_prefix (g G) n) desc))
                         @ concat (rev (map (ancestor_prefix (g G) n) asc)))
             (node_attrs G) na'"
    by blast
  from r show "fst (resolve_styles G) = None" by simp
  from r show "(snd (resolve_styles G))\<lparr>node_attrs := node_attrs G\<rparr> = G" by simp
  from render_dot_node_attrs [OF assms(1) r, of limit] p
  show "prepended (\<lambda>n. concat (rev (map (path_prefix (g G) n) pths))
                         @ concat (rev (map (descendant_prefix (g G) n) desc))
                         @ concat (rev (map (ancestor_prefix (g G) n) asc)))
             (node_attrs G) (node_attrs (snd (render_dot limit G)))"
    by simp
qed

text \<open>
  C7: \<open>render_dot\<close> on a Graph that passes the forest test, whose ancestor and descendant
  style specs all match (\<open>asc\<close> and \<open>desc\<close> are the pairs of target and style text that
  the specs of \<open>ascendant_styles\<close> and \<open>descendant_styles\<close> match to, in the order of
  the lists), with every target a node of the graph, and without path style specs.  The
  style loops raise nothing and change no field but \<open>node_attrs\<close>.  After the call the
  \<open>node_attrs\<close> entry of every node \<open>n\<close> is its entry before the call (the empty text
  when it had none) with, for every spec whose reachability set contains \<open>n\<close>, the
  resolved style text followed by \<open>;\<close> in front of it: a later spec in front of an
  earlier one, the descendant specs in front of the ancestor specs.  The reachability set
  of an ancestor (descendant) spec is the set of the nodes from which the target can be
  reached (that can be reached from the target) along one edge or more, the target
  itself excepted.  A node in none of these sets that had no entry gets none.  The style
  text is resolved through the preset table: what \<open>NODE_STYLES.get(attrs, attrs)\<close>
  returns is filled pink for \<open>highlight\<close> and \<open>pink\<close>, filled green for \<open>green\<close>, and the
  text itself for any other text.  (With path style specs too, their part comes in
  front of the two others: \<open>render_dot_styles\<close>.)
\<close>

theorem render_dot_ancestor_descendant_styles:
  assumes "dg_node (subgraph_relations (g G)) = [] \<or> is_forest (subgraph_relations (g G))"
    and "map match_node_spec (ascendant_styles G) = map Some asc"
    and "map match_node_spec (descendant_styles G) = map Some desc"
    and "\<forall>t\<in>set (asc @ desc). has_node (g G) (fst t)"
    and "path_styles G = []"
  shows "fst (resolve_styles G) = None \<and>
         (snd (resolve_styles G))\<lparr>node_attrs := node_attrs G\<rparr> = G \<and>
         (\<forall>n. node_attrs_get (node_attrs (snd (render_dot limit G))) n =
                concat (rev (map (descendant_prefix (g G) n) desc))
                @ concat (rev (map (ancestor_prefix (g G) n) asc))
                @ node_attrs_get (node_attrs G) n \<and>
              (map_of (node_attrs (snd (render_dot limit G))) n = None \<longleftrightarrow>
                 map_of (node_attrs G) n = None \<and>
                 concat (rev (map (descendant_prefix (g G) n) desc)) = [] \<and>
                 concat (rev (map (ancestor_prefix (g G) n) asc)) = [])) \<and>
         (\<forall>style_text. node_style style_text = preset_style style_text)"
proof -
  have p: "map match_path_spec (path_styles G) = map Some []" using assms(5) by simp
  have e: "\<forall>t\<in>set []. has_node (g G) (fst t) \<and> (fst t, fst (snd t)) \<in> (edge_rel (g G))\<^sup>*"
    by simp
  note r = render_dot_styles [OF assms(1-3) p assms(4) e]
  from r(3) have "\<forall>n. node_attrs_get (node_attrs (snd (render_dot limit G))) n =
                concat (rev (map (descendant_prefix (g G) n) desc))
                @ concat (rev (map (ancestor_prefix (g G) n) asc))
                @ node_attrs_get (node_attrs G) n \<and>
              (map_of (node_attrs (snd (render_dot limit G))) n = None \<longleftrightarrow>
                 map_of (node_attrs G) n = None \<and>
                 concat (rev (map (descendant_prefix (g G) n) desc)) = [] \<and>
                 concat (rev (map (ancestor_prefix (g G) n) asc)) = [])"
    by (simp add: prepended_def)
  with r(1,2) show ?thesis by (simp add: node_style_preset)
qed

theorem render_dot_ancestor_descendant_styles_witness:
  "dg_node (subgraph_relations (g styled_chain)) = [] \<and>
   map match_node_spec (ascendant_styles styled_chain)
     = map Some [(''c'', ''green''), (''b'', ''highlight'')] \<and>
   map match_node_spec (descendant_styles styled_chain) = map Some [(''a'', ''dotted'')] \<and>
   has_node (g styled_chain) ''a'' \<and> has_node (g styled_chain) ''b'' \<and>
   has_node (g styled_chain) ''c'' \<and>
   path_styles styled_chain = [] \<and>
   map_of (node_attrs styled_chain) ''a'' = Some ''shape=box'' \<and>
   map_of (node_attrs (snd (render_dot 1000 styled_chain))) ''a''
     = Some ''style=\"filled\"; fillcolor=\"pink\";style=\"filled\"; fillcolor=\"green\";shape=box'' \<and>
   map_of (node_attrs (snd (render_dot 1000 styled_chain))) ''b''
     = Some ''dotted;style=\"filled\"; fillcolor=\"green\";'' \<and>
   map_of (node_attrs (snd (render_dot 1000 styled_chain))) ''c'' = Some ''dotted;'' \<and>
   map_of (node_attrs (snd (render_dot 1000 styled_chain))) ''d'' = None"
proof -
  let ?asc = "[(''c'', ''green''), (''b'', ''highlight'')]"
  let ?desc = "[(''a'', ''dotted'')]"
  let ?na = "node_attrs (snd (render_dot 1000 styled_chain))"
  have h1: "dg_node (subgraph_relations (g styled_chain)) = []" by code_simp
  have h2: "map match_node_spec (ascendant_styles styled_chain) = map Some ?asc" by code_simp
  have h3: "map match_node_spec (descendant_styles styled_chain) = map Some ?desc" by code_simp
  have h4: "has_node (g styled_chain) ''a''" "has_node (g styled_chain) ''b''"
    "has_node (g styled_chain) ''c''" by code_simp+
  have h5: "path_styles styled_chain = []" by code_simp
  have old: "map_of (node_attrs styled_chain) ''a'' = Some ''shape=box''" by code_simp
  from h1 have f: "dg_node (subgraph_relations (g styled_chain)) = []
                     \<or> is_forest (subgraph_relations (g styled_chain))" ..
  from h4 have n: "\<forall>t\<in>set (?asc @ ?desc). has_node (g styled_chain) (fst t)" by simp
  note t = render_dot_ancestor_descendant_styles [OF f h2 h3 n h5, of 1000,
             THEN conjunct2, THEN conjunct2, THEN conjunct1, THEN spec]
  have va: "concat (rev (map (descendant_prefix (g styled_chain) ''a'') ?desc))
              @ concat (rev (map (ancestor_prefix (g styled_chain) ''a'') ?asc))
              @ node_attrs_get (node_attrs styled_chain) ''a''
            = ''style=\"filled\"; fillcolor=\"pink\";style=\"filled\"; fillcolor=\"green\";shape=box''"
    by code_simp
  have vb: "concat (rev (map (descendant_prefix (g styled_chain) ''b'') ?desc))
              @ concat (rev (map (ancestor_prefix (g styled_chain) ''b'') ?asc))
              @ node_attrs_get (node_attrs styled_chain) ''b''
            = ''dotted;style=\"filled\"; fillcolor=\"green\";''"
    by code_simp
  have vc: "concat (rev (map (descendant_prefix (g styled_chain) ''c'') ?desc))
              @ concat (rev (map (ancestor_prefix (g styled_chain) ''c'') ?asc))
              @ node_attrs_get (node_attrs styled_chain) ''c''
            = ''dotted;''"
    by code_simp
  have vd: "map_of (node_attrs styled_chain) ''d'' = None"
    "concat (rev (map (descendant_prefix (g styled_chain) ''d'') ?desc)) = []"
    "concat (rev (map (ancestor_prefix (g styled_chain) ''d'') ?asc)) = []"
    by code_simp+
  have get: "map_of na n = Some v" if "node_attrs_get na n = v" "v \<noteq> []"
    for na :: "(string \<times> string) list" and n v
    using that by (cases "map_of na n") (simp_all add: node_attrs_get_def)
  have ra: "map_of ?na ''a''
     = Some ''style=\"filled\"; fillcolor=\"pink\";style=\"filled\"; fillcolor=\"green\";shape=box''"
    using t [of "''a''", THEN conjunct1] unfolding va by (rule get) simp
  have rb: "map_of ?na ''b'' = Some ''dotted;style=\"filled\"; fillcolor=\"green\";''"
    using t [of "''b''", THEN conjunct1] unfolding vb by (rule get) simp
  have rc: "map_of ?na ''c'' = Some ''dotted;''"
    using t [of "''c''", THEN conjunct1] unfolding vc by (rule get) simp
  have rd: "map_of ?na ''d'' = None"
    using t [of "''d''", THEN conjunct2] vd by (simp only: simp_thms)
  from h1 h2 h3 h4 h5 old ra rb rc rd show ?thesis by (intro conjI)
qed

text \<open>
  C8: \<open>render_dot\<close> on a Graph that passes the forest test, without ancestor and
  descendant style specs, whose path style specs all match (\<open>pths\<close> are the triples of
  start, end and style text that the specs of \<open>path_styles\<close> match to, in the order of
  the list), with every start a node of the graph and every end reachable from its
  start.  The style loop raises nothing and changes no field but \<open>node_attrs\<close>.  After
  the call the \<open>node_attrs\<close> entry of every node \<open>n\<close> is its entry before the call (the
  empty text when it had none) with, for every spec, the resolved style text followed by
  \<open>;\<close> in front of it once for every shortest path (a walk from the start to the end
  that no such walk undercuts in length) that \<open>n\<close> lies on: a node on \<open>k\<close> shortest paths
  gets it \<open>k\<close> times, a node on none of any spec that had no entry gets none.
\<close>

theorem render_dot_path_styles:
  assumes "dg_node (subgraph_relations (g G)) = [] \<or> is_forest (subgraph_relations (g G))"
    and "ascendant_styles G = []" and "descendant_styles G = []"
    and "map match_path_spec (path_styles G) = map Some pths"
    and "\<forall>t\<in>set pths. has_node (g G) (fst t) \<and> (fst t, fst (snd t)) \<in> (edge_rel (g G))\<^sup>*"
  shows "fst (resolve_styles G) = None \<and>
         (snd (resolve_styles G))\<lparr>node_attrs := node_attrs G\<rparr> = G \<and>
         (\<forall>n. node_attrs_get (node_attrs (snd (render_dot limit G))) n =
                concat (rev (map (path_prefix (g G) n) pths)) @ node_attrs_get (node_attrs G) n \<and>
              (map_of (node_attrs (snd (render_dot limit G))) n = None \<longleftrightarrow>
                 map_of (node_attrs G) n = None \<and>
                 concat (rev (map (path_prefix (g G) n) pths)) = []))"
proof -
  have a: "map match_node_spec (ascendant_styles G) = map Some []"
    and d: "map match_node_spec (descendant_styles G) = map Some []"
    using assms(2,3) by simp_all
  have e: "\<forall>t\<in>set ([] @ []). has_node (g G) (fst t)" by simp
  note r = render_dot_styles [OF assms(1) a d assms(4) e assms(5)]
  from r(3) have "\<forall>n. node_attrs_get (node_attrs (snd (render_dot limit G))) n =
                concat (rev (map (path_prefix (g G) n) pths)) @ node_attrs_get (node_attrs G) n \<and>
              (map_of (node_attrs (snd (render_dot limit G))) n = None \<longleftrightarrow>
                 map_of (node_attrs G) n = None \<and>
                 concat (rev (map (path_prefix (g G) n) pths)) = [])"
    by (simp add: prepended_def)
  with r(1,2) show ?thesis by simp
qed


theorem render_dot_path_styles_witness:
  "dg_node (subgraph_relations (g styled_diamond)) = [] \<and>
   ascendant_styles styled_diamond = [] \<and> descendant_styles styled_diamond = [] \<and>
   map match_path_spec (path_styles styled_diamond) = map Some [(''a'', ''d'', ''green'')] \<and>
   has_node (g styled_diamond) ''a'' \<and>
   (''a'', ''d'') \<in> (edge_rel (g styled_diamond))\<^sup>* \<and>
   all_shortest_paths (g styled_diamond) ''a'' ''d''
     = Inr [[''a'', ''b'', ''d''], [''a'', ''c'', ''d'']] \<and>
   card {p. is_shortest_path (g styled_diamond) ''a'' ''d'' p \<and> ''a'' \<in> set p} = 2 \<and>
   card {p. is_shortest_path (g styled_diamond) ''a'' ''d'' p \<and> ''b'' \<in> set p} = 1 \<and>
   map_of (node_attrs styled_diamond) ''a'' = Some ''shape=box'' \<and>
   map_of (node_attrs (snd (render_dot 1000 styled_diamond))) ''a''
     = Some ''style=\"filled\"; fillcolor=\"green\";style=\"filled\"; fillcolor=\"green\";shape=box'' \<and>
   map_of (node_attrs (snd (render_dot 1000 styled_diamond))) ''b''
     = Some ''style=\"filled\"; fillcolor=\"green\";'' \<and>
   map_of (node_attrs (snd (render_dot 1000 styled_diamond))) ''e'' = None"
proof -
  let ?pths = "[(''a'', ''d'', ''green'')]"
  let ?na = "node_attrs (snd (render_dot 1000 styled_diamond))"
  let ?ps = "[[''a'', ''b'', ''d''], [''a'', ''c'', ''d'']]"
  have h1: "dg_node (subgraph_relations (g styled_diamond)) = []" by code_simp
  have h2: "ascendant_styles styled_diamond = []" "descendant_styles styled_diamond = []"
    by code_simp+
  have h3: "map match_path_spec (path_styles styled_diamond) = map Some ?pths" by code_simp
  have h4: "has_node (g styled_diamond) ''a''" by code_simp
  have "(''a'', ''d'') \<in> (edge_rel (g styled_diamond))\<^sup>+" by code_simp
  then have h5: "(''a'', ''d'') \<in> (edge_rel (g styled_diamond))\<^sup>*" by (rule trancl_into_rtrancl)
  have e: "all_shortest_paths (g styled_diamond) ''a'' ''d'' = Inr ?ps" by code_simp
  have old: "map_of (node_attrs styled_diamond) ''a'' = Some ''shape=box''"
    "map_of (node_attrs styled_diamond) ''e'' = None" by code_simp+
  note c = card_shortest_paths_through(1) [OF e h4 h5]
  have ca: "card {p. is_shortest_path (g styled_diamond) ''a'' ''d'' p \<and> ''a'' \<in> set p} = 2"
    and cb: "card {p. is_shortest_path (g styled_diamond) ''a'' ''d'' p \<and> ''b'' \<in> set p} = 1"
    and ce: "card {p. is_shortest_path (g styled_diamond) ''a'' ''d'' p \<and> ''e'' \<in> set p} = 0"
    unfolding c by code_simp+
  from h1 have f: "dg_node (subgraph_relations (g styled_diamond)) = []
                     \<or> is_forest (subgraph_relations (g styled_diamond))" ..
  from h4 h5 have n: "\<forall>t\<in>set ?pths. has_node (g styled_diamond) (fst t)
                        \<and> (fst t, fst (snd t)) \<in> (edge_rel (g styled_diamond))\<^sup>*" by simp
  note t = render_dot_path_styles [OF f h2 h3 n, of 1000,
             THEN conjunct2, THEN conjunct2, THEN spec]
  have pa: "concat (rev (map (path_prefix (g styled_diamond) ''a'') ?pths))
              @ node_attrs_get (node_attrs styled_diamond) ''a''
            = ''style=\"filled\"; fillcolor=\"green\";style=\"filled\"; fillcolor=\"green\";shape=box''"
    unfolding path_prefix_def list.map fst_conv snd_conv ca by code_simp
  have pb: "concat (rev (map (path_prefix (g styled_diamond) ''b'') ?pths))
              @ node_attrs_get (node_attrs styled_diamond) ''b''
            = ''style=\"filled\"; fillcolor=\"green\";''"
    unfolding path_prefix_def list.map fst_conv snd_conv cb by code_simp
  have pe: "concat (rev (map (path_prefix (g styled_diamond) ''e'') ?pths)) = []"
    unfolding path_prefix_def list.map fst_conv snd_conv ce by code_simp
  have get: "map_of na n = Some v" if "node_attrs_get na n = v" "v \<noteq> []"
    for na :: "(string \<times> string) list" and n v
    using that by (cases "map_of na n") (simp_all add: node_attrs_get_def)
  have ra: "map_of ?na ''a''
     = Some ''style=\"filled\"; fillcolor=\"green\";style=\"filled\"; fillcolor=\"green\";shape=box''"
    using t [of "''a''", THEN conjunct1] unfolding pa by (rule get) simp
  have rb: "map_of ?na ''b'' = Some ''style=\"filled\"; fillcolor=\"green\";''"
    using t [of "''b''", THEN conjunct1] unfolding pb by (rule get) simp
  have re: "map_of ?na ''e'' = None"
    using t [of "''e''", THEN conjunct2] old(2) pe by (simp only: simp_thms)
  from h1 h2 h3 h4 h5 e ca cb old(1) ra rb re show ?thesis by (intro conjI)
qed

section \<open>Properties of rendering\<close>

subsection \<open>The exceptions of \<open>render_dot\<close>\<close>

lemma for_each_error:
  assumes "\<And>x G e G'. body x G = (Some e, G') \<Longrightarrow> P e"
  shows "for_each body xs G = (Some e, G') \<Longrightarrow> P e"
proof (induction xs arbitrary: G)
  case Nil
  then show ?case by simp
next
  case (Cons x xs)
  show ?case
  proof (cases "body x G")
    case (Pair r G1)
    show ?thesis
    proof (cases r)
      case None
      with Pair Cons.prems have "for_each body xs G1 = (Some e, G')" by simp
      then show ?thesis by (rule Cons.IH)
    next
      case (Some e')
      with Pair Cons.prems have "body x G = (Some e, G')" by simp
      then show ?thesis by (rule assms)
    qed
  qed
qed

lemma ancestor_style_error:
  "ancestor_style spec G = (Some e, G') \<Longrightarrow> e \<noteq> ValueError"
  by (auto simp add: ancestor_style_def ancestors_def split: option.splits sum.splits if_splits)

lemma descendant_style_error:
  "descendant_style spec G = (Some e, G') \<Longrightarrow> e \<noteq> ValueError"
  by (auto simp add: descendant_style_def descendants_def split: option.splits sum.splits if_splits)

lemma path_style_error:
  "path_style spec G = (Some e, G') \<Longrightarrow> e \<noteq> ValueError"
  by (auto simp add: path_style_def all_shortest_paths_def
      split: option.splits sum.splits if_splits)

lemma for_each_style_error:
  "for_each ancestor_style xs G = (Some e, G') \<Longrightarrow> e \<noteq> ValueError"
  "for_each descendant_style xs G = (Some e, G') \<Longrightarrow> e \<noteq> ValueError"
  "for_each path_style xs G = (Some e, G') \<Longrightarrow> e \<noteq> ValueError"
  by (erule for_each_error [where P = "\<lambda>e. e \<noteq> ValueError", rotated],
      erule ancestor_style_error descendant_style_error path_style_error)+

lemma resolve_styles_error:
  "resolve_styles G = (Some e, G') \<Longrightarrow> e \<noteq> ValueError"
  unfolding resolve_styles_def
  by (auto split: prod.splits option.splits dest: for_each_style_error)

lemma render_subgraph_error:
  "render_subgraph G depth root visited = Inl e \<Longrightarrow> e \<noteq> ValueError"
  "render_children G depth cs dot visited = Inl e \<Longrightarrow> e \<noteq> ValueError"
proof (induction G depth root visited and G depth cs dot visited
    rule: render_subgraph_render_children.induct)
  case (1 G root already_visited)
  then show ?case by simp
next
  case (2 G depth root already_visited)
  show ?case
  proof (cases "map_of (dg_node (g G)) root")
    case None
    with "2.prems" show ?thesis by simp
  next
    case (Some nd)
    show ?thesis
    proof (cases "render_children G depth (successors (g G) root) (subgraph_header G root nd)
                    already_visited")
      case (Inl e')
      with "2.prems" Some have "e' = e" by simp
      with "2.IH" [OF Some] Inl show ?thesis by simp
    next
      case (Inr r)
      with "2.prems" Some show ?thesis by (simp split: prod.splits)
    qed
  qed
next
  case (3 G depth dot already_visited)
  then show ?case by simp
next
  case (4 G depth child cs dot already_visited)
  show ?case
  proof (cases "child \<in> set already_visited")
    case True
    with "4.prems" "4.IH"(1) show ?thesis by simp
  next
    case False
    show ?thesis
    proof (cases "map_of (dg_node (g G)) child")
      case None
      with "4.prems" False show ?thesis by simp
    next
      case (Some nd)
      show ?thesis
      proof (cases "nd_subgraph nd")
        case sub: True
        show ?thesis
        proof (cases "render_subgraph G depth child already_visited")
          case (Inl e')
          with "4.prems" False Some sub have "e' = e" by simp
          with "4.IH"(2) [OF False Some sub] Inl show ?thesis by simp
        next
          case (Inr r)
          obtain subsub visited where r: "r = (subsub, visited)" by (cases r)
          from "4.prems" False Some sub Inr r
          have "render_children G depth cs (dot @ [subsub]) (child # visited) = Inl e" by simp
          with "4.IH"(3) [OF False Some sub Inr r [symmetric]] show ?thesis by simp
        qed
      next
        case nosub: False
        from "4.prems" False Some nosub
        have "render_children G depth cs
                 (if should_include_node G child then dot @ [render_node G child] else dot)
                 (child # already_visited) = Inl e" by simp
        with "4.IH"(4) [OF False Some nosub] show ?thesis by simp
      qed
    qed
  qed
qed

lemma render_clusters_error:
  "render_clusters G limit ns dot visited = Inl e \<Longrightarrow> e \<noteq> ValueError"
proof (induction G limit ns dot visited rule: render_clusters.induct)
  case (1 G limit dot already_visited)
  then show ?case by simp
next
  case (2 G limit node ns dot already_visited)
  show ?case
  proof (cases "node \<in> set already_visited")
    case True
    with "2.prems" "2.IH"(1) show ?thesis by simp
  next
    case False
    show ?thesis
    proof (cases "map_of (dg_node (g G)) node")
      case None
      with "2.prems" False show ?thesis by simp
    next
      case (Some nd)
      show ?thesis
      proof (cases "nd_subgraph nd")
        case sub: True
        show ?thesis
        proof (cases "render_subgraph G limit node (node # already_visited)")
          case (Inl e')
          with "2.prems" False Some sub have "e' = e" by simp
          with render_subgraph_error(1) Inl show ?thesis by blast
        next
          case (Inr r)
          obtain tx visited where r: "r = (tx, visited)" by (cases r)
          from "2.prems" False Some sub Inr r
          have "render_clusters G limit ns (dot @ [tx]) visited = Inl e" by simp
          with "2.IH"(2) [OF False Some sub Inr r [symmetric]] show ?thesis by simp
        qed
      next
        case nosub: False
        from "2.prems" False Some nosub
        have "render_clusters G limit ns dot (node # already_visited) = Inl e" by simp
        with "2.IH"(3) [OF False Some nosub] show ?thesis by simp
      qed
    qed
  qed
qed

lemma topological_sort_loop_error:
  "snd (topological_sort_loop D im zi) = Some e \<Longrightarrow> e \<noteq> ValueError"
proof (induction D im zi rule: topological_sort_loop.induct)
  case (1 D im zi)
  show ?case
  proof (cases "zi = []")
    case True
    with "1.prems" show ?thesis
      by (subst (asm) topological_sort_loop.simps)
         (simp split: if_splits)
  next
    case False
    show ?thesis
    proof (cases "kahn_children (successors D (last zi)) im (butlast zi)")
      case None
      with "1.prems" False show ?thesis
        by (subst (asm) topological_sort_loop.simps) simp
    next
      case (Some r)
      obtain im' zi' where r: "r = (im', zi')" by (cases r)
      from "1.prems" False Some r have "snd (topological_sort_loop D im' zi') = Some e"
        by (subst (asm) topological_sort_loop.simps)
           (simp split: prod.splits)
      with "1.IH" [OF False Some r [symmetric]] show ?thesis by simp
    qed
  qed
qed

lemma render_dot_ValueError_iff:
  "fst (render_dot limit G) = Inl ValueError \<longleftrightarrow>
     dg_node (subgraph_relations (g G)) \<noteq> [] \<and> \<not> is_forest (subgraph_relations (g G))"
proof (cases "dg_node (subgraph_relations (g G)) \<noteq> [] \<and> \<not> is_forest (subgraph_relations (g G))")
  case True
  then show ?thesis by (simp add: render_dot_def)
next
  case nc: False
  obtain r G1 where rs: "resolve_styles G = (r, G1)" by (cases "resolve_styles G")
  have "fst (render_dot limit G) \<noteq> Inl ValueError"
  proof (cases r)
    case (Some e)
    with rs nc resolve_styles_error [of G e G1] show ?thesis
      by (simp add: render_dot_def)
  next
    case None
    show ?thesis
    proof (cases "render_clusters G1 limit (fst (topological_sort (subgraph_relations (g G))))
                    (digraph_header G) []")
      case (Inl e)
      with rs nc None render_clusters_error [OF Inl] show ?thesis
        by (simp add: render_dot_def)
    next
      case (Inr c)
      show ?thesis
      proof (cases "snd (topological_sort (subgraph_relations (g G)))")
        case none: None
        with rs nc None Inr show ?thesis
          by (simp add: render_dot_def split: prod.splits)
      next
        case (Some e)
        then have "e \<noteq> ValueError"
          unfolding topological_sort_def by (rule topological_sort_loop_error)
        with rs nc None Inr Some show ?thesis
          by (simp add: render_dot_def split: prod.splits)
      qed
    qed
  qed
  with nc show ?thesis by simp
qed

text \<open>
  C1: rendering fails with the forest error exactly when the subgraph relations are not
  a forest, and in particular whenever some node has two subgraph parents.  The first
  half holds for what \<open>is_forest\<close> of networkx calls a forest
  (\<open>render_dot_ValueError_iff\<close>), but that test ignores the direction of the edges: on
  the Graph of the lines \<open>..subgraph: p1: c\<close> and \<open>..subgraph: p2: c\<close> the node \<open>c\<close> has the
  two subgraph parents \<open>p1\<close> and \<open>p2\<close>, the three nodes are joined by two edges, the test
  passes and \<open>render_dot\<close> returns a document with both clusters.
\<close>

theorem render_dot_two_subgraph_parents_succeeds:
  "from_lines [''..subgraph: p1: c'', ''..subgraph: p2: c''] False = (None, two_parents) \<and>
   predecessors (subgraph_relations (g two_parents)) ''c'' = [''p1'', ''p2''] \<and>
   is_forest (subgraph_relations (g two_parents)) \<and>
   render_dot 1000 two_parents =
     (Inr (join [CHR 0x0A]
             [''digraph G'' @ [CHR 0xA0] @ ''{'',
              ''subgraph cluster_p2 {'', ''id=\"p2\";'', ''label=\"\"; style=dashed;'', ''}'',
              ''subgraph cluster_p1 {'', ''id=\"p1\";'', ''label=\"\"; style=dashed;'', ''}'',
              ''}'']),
      two_parents)"
  by code_simp

subsection \<open>Rendering again\<close>




lemma touch_get [simp]:
  "edge_attrs_get (edge_attrs_touch a b ea) c d = edge_attrs_get ea c d"
  by (auto simp add: edge_attrs_touch_def edge_attrs_get_def edge_attrs_put_def update_conv'
      split: option.splits)

lemma touch_present_same [simp]: "present (edge_attrs_touch a b ea) a b"
  by (simp add: present_def edge_attrs_touch_def edge_attrs_put_def update_conv')




lemma render_edges_snd:
  "snd (render_edges (((a, b), ed) # es) ea) =
     (if ed_is_subgraph_relation ed then snd (render_edges es ea)
      else snd (render_edges es (edge_attrs_touch a b ea)))"
  by (simp split: prod.splits)

lemma render_edges_get [simp]:
  "edge_attrs_get (snd (render_edges es ea)) c d = edge_attrs_get ea c d"
  by (induction es ea rule: render_edges.induct)
     (simp_all add: render_edges_snd del: render_edges.simps(2))






lemma render_helpers_edge_attrs [simp]:
  "should_include_node (G\<lparr>edge_attrs := x\<rparr>) n = should_include_node G n"
  "render_node (G\<lparr>edge_attrs := x\<rparr>) n = render_node G n"
  "subgraph_header (G\<lparr>edge_attrs := x\<rparr>) n nd = subgraph_header G n nd"
  "digraph_header (G\<lparr>edge_attrs := x\<rparr>) = digraph_header G"
  by (simp_all add: should_include_node_def render_node_def subgraph_header_def
      digraph_header_def)










section \<open>Properties of the scanner\<close>

lemma skip_white_replicate [simp]: "skip_white (replicate n (CHR '' '') @ s) = skip_white s"
  by (induction n) (simp_all add: skip_white_def)

lemma expandtabs_no_tab: "CHR 0x09 \<notin> set s \<Longrightarrow> expandtabs col s = s"
  by (induction s arbitrary: col) auto

lemma scan_Nil: "scan [] = []"
  by code_simp

lemma identifier_chars:
  "identifier_char (CHR ''e'')" "identifier_char (CHR ''d'')" "identifier_char (CHR ''g'')"
  "identifier_char (CHR ''1'')" "identifier_char (CHR ''2'')"
  "\<not> identifier_char (CHR '' '')" "identifier_char (CHR ''-'')" "\<not> identifier_char (CHR ''>'')"
  by code_simp+

lemma skip_white_edge [simp]: "skip_white (CHR ''e'' # s) = CHR ''e'' # s"
  by (simp add: skip_white_def)

lemma Identifier_edge1:
  "Identifier (''edge1'' @ CHR '' '' # s) = Some (''edge1'', CHR '' '' # s)"
  by (simp add: Identifier_def identifier_chars)

lemma Identifier_edge2:
  "takeWhile identifier_char rest = [] \<Longrightarrow>
   Identifier (replicate m (CHR '' '') @ ''edge2'' @ rest) = Some (''edge2'', rest)"
  by (simp add: Identifier_def identifier_chars takeWhile_eq_Nil_iff dropWhile_eq_self_iff)

lemma literal_arrow:
  "literal ''-->'' (CHR '' '' # replicate n (CHR '' '') @ ''-->'' @ s) = Some s"
  using skip_white_replicate [of "Suc n" "''-->'' @ s"]
  by (simp add: literal_def skip_white_def)

lemma edge_with_spaces:
  "takeWhile identifier_char rest = [] \<Longrightarrow>
   edge st (''edge1'' @ replicate (Suc n) (CHR '' '') @ ''-->'' @ replicate m (CHR '' '')
              @ ''edge2'' @ rest)
     = Some (st\<lparr>st_start := Some ''edge1'', st_end := Some ''edge2''\<rparr>, rest)"
  using Identifier_edge1 [of "replicate n (CHR '' '') @ ''-->'' @ replicate m (CHR '' '') @ ''edge2'' @ rest"]
    literal_arrow [of n "replicate m (CHR '' '') @ ''edge2'' @ rest"]
    Identifier_edge2 [of rest m]
  by (simp add: edge_def)

lemma directive_edge: "directive (CHR ''e'' # s) = None"
  by (simp add: directive_def literal_def)

lemma scan_edge_with_spaces:
  "scan (''edge1'' @ replicate (Suc n) (CHR '' '') @ ''-->'' @ replicate m (CHR '' '') @ ''edge2'')
     = [\<lparr>st_start = Some ''edge1'', st_end = Some ''edge2'', st_node = None,
         st_directive = None, st_label = None, st_comment = None, st_data = None\<rparr>]"
proof -
  let ?s = "''edge1'' @ replicate (Suc n) (CHR '' '') @ ''-->'' @ replicate m (CHR '' '') @ ''edge2''"
  have w: "skip_white ?s = ?s" by simp
  have "edgeSpec ?s = Some (empty_statement\<lparr>st_start := Some ''edge1'', st_end := Some ''edge2''\<rparr>, [])"
    using edge_with_spaces [of "[]" empty_statement n m]
    by (simp add: edgeSpec_def literal_def skip_white_def)
  then have p: "parser ?s = Some (empty_statement\<lparr>st_start := Some ''edge1'', st_end := Some ''edge2''\<rparr>, [])"
    by (simp add: parser_def directive_edge)
  show ?thesis
    by (subst scan.simps) (simp only: w p, simp add: scan_Nil empty_statement_def)
qed

lemma comment_after_edge:
  "takeWhile identifier_char '' :: comment goes here'' = []"
  "literal ''::'' '' :: comment goes here'' = Some '' comment goes here''"
  "regex_rest '' comment goes here'' = (''comment goes here'', [])"
  by code_simp+

lemma scan_commented_edge_with_spaces:
  "scan (''edge1'' @ replicate (Suc n) (CHR '' '') @ ''-->'' @ replicate m (CHR '' '')
           @ ''edge2 :: comment goes here'')
     = [\<lparr>st_start = Some ''edge1'', st_end = Some ''edge2'', st_node = None,
         st_directive = None, st_label = None, st_comment = Some ''comment goes here'',
         st_data = None\<rparr>]"
proof -
  let ?s = "''edge1'' @ replicate (Suc n) (CHR '' '') @ ''-->'' @ replicate m (CHR '' '')
              @ ''edge2'' @ '' :: comment goes here''"
  have w: "skip_white ?s = ?s" by simp
  have "edgeSpec ?s = Some (empty_statement\<lparr>st_start := Some ''edge1'', st_end := Some ''edge2'',
                               st_comment := Some ''comment goes here''\<rparr>, [])"
    using edge_with_spaces [OF comment_after_edge(1), of empty_statement n m]
    by (simp add: edgeSpec_def comment_after_edge)
  then have p: "parser ?s = Some (empty_statement\<lparr>st_start := Some ''edge1'', st_end := Some ''edge2'',
                               st_comment := Some ''comment goes here''\<rparr>, [])"
    by (simp add: parser_def directive_edge)
  have "scan ?s = [\<lparr>st_start = Some ''edge1'', st_end = Some ''edge2'', st_node = None,
         st_directive = None, st_label = None, st_comment = Some ''comment goes here'',
         st_data = None\<rparr>]"
    by (subst scan.simps) (simp only: w p, simp add: scan_Nil empty_statement_def)
  then show ?thesis by simp
qed

text \<open>
  C9: the scanner returns exactly the statements of the spec's examples: one edge
  statement for \<open>edge1 --> edge2\<close>, the same with the comment for
  \<open>edge1 --> edge2 :: comment goes here\<close>, and the \<open>attr\<close> statement with node and data
  for \<open>..attr: nodeName: attrs\<close>; and the two edge lines give the same statements with
  any number of additional spaces before and after the arrow.
\<close>

theorem search_for_statements_examples:
  "search_for_statements ''edge1 --> edge2''
     = [\<lparr>st_start = Some ''edge1'', st_end = Some ''edge2'', st_node = None,
         st_directive = None, st_label = None, st_comment = None, st_data = None\<rparr>] \<and>
   search_for_statements ''edge1 --> edge2 :: comment goes here''
     = [\<lparr>st_start = Some ''edge1'', st_end = Some ''edge2'', st_node = None,
         st_directive = None, st_label = None, st_comment = Some ''comment goes here'',
         st_data = None\<rparr>] \<and>
   search_for_statements ''..attr: nodeName: attrs''
     = [\<lparr>st_start = None, st_end = None, st_node = Some ''nodeName'',
         st_directive = Some ''attr'', st_label = None, st_comment = None,
         st_data = Some ''attrs''\<rparr>] \<and>
   search_for_statements
       (''edge1'' @ replicate (Suc n) (CHR '' '') @ ''-->'' @ replicate m (CHR '' '') @ ''edge2'')
     = [\<lparr>st_start = Some ''edge1'', st_end = Some ''edge2'', st_node = None,
         st_directive = None, st_label = None, st_comment = None, st_data = None\<rparr>] \<and>
   search_for_statements
       (''edge1'' @ replicate (Suc n) (CHR '' '') @ ''-->'' @ replicate m (CHR '' '')
          @ ''edge2 :: comment goes here'')
     = [\<lparr>st_start = Some ''edge1'', st_end = Some ''edge2'', st_node = None,
         st_directive = None, st_label = None, st_comment = Some ''comment goes here'',
         st_data = None\<rparr>]"
proof -
  have a: "search_for_statements ''edge1 --> edge2''
     = [\<lparr>st_start = Some ''edge1'', st_end = Some ''edge2'', st_node = None,
         st_directive = None, st_label = None, st_comment = None, st_data = None\<rparr>]"
    by code_simp
  have b: "search_for_statements ''edge1 --> edge2 :: comment goes here''
     = [\<lparr>st_start = Some ''edge1'', st_end = Some ''edge2'', st_node = None,
         st_directive = None, st_label = None, st_comment = Some ''comment goes here'',
         st_data = None\<rparr>]"
    by code_simp
  have c: "search_for_statements ''..attr: nodeName: attrs''
     = [\<lparr>st_start = None, st_end = None, st_node = Some ''nodeName'',
         st_directive = Some ''attr'', st_label = None, st_comment = None,
         st_data = Some ''attrs''\<rparr>]"
    by code_simp
  have d: "search_for_statements
       (''edge1'' @ replicate (Suc n) (CHR '' '') @ ''-->'' @ replicate m (CHR '' '') @ ''edge2'')
     = [\<lparr>st_start = Some ''edge1'', st_end = Some ''edge2'', st_node = None,
         st_directive = None, st_label = None, st_comment = None, st_data = None\<rparr>]"
    unfolding search_for_statements_def
    by (subst expandtabs_no_tab) (simp_all only: scan_edge_with_spaces, simp)
  have e: "search_for_statements
       (''edge1'' @ replicate (Suc n) (CHR '' '') @ ''-->'' @ replicate m (CHR '' '')
          @ ''edge2 :: comment goes here'')
     = [\<lparr>st_start = Some ''edge1'', st_end = Some ''edge2'', st_node = None,
         st_directive = None, st_label = None, st_comment = Some ''comment goes here'',
         st_data = None\<rparr>]"
    unfolding search_for_statements_def
    by (subst expandtabs_no_tab) (simp_all only: scan_commented_edge_with_spaces, simp)
  from a b c d e show ?thesis by (intro conjI)
qed

text \<open>
  The space before the arrow cannot be left out: \<open>-\<close> is an identifier character, so
  \<open>edge1--\<close> is read as the identifier and no arrow follows it.
\<close>

lemma search_for_statements_needs_space_before_arrow:
  "search_for_statements ''edge1-->edge2'' = []"
  by code_simp

end
